theory Spec2Isabelle
  imports Main
begin

section \<open>Data model of the part tracker\<close>

text \<open>
  The trackers of \<^verbatim>\<open>PartTrackerTests.cpp\<close> are heap objects that point at each other:
  a tracker holds its children (\<^verbatim>\<open>m_children\<close>) and a raw back pointer to its parent
  (\<^verbatim>\<open>m_parent\<close>), and the context holds a raw pointer to the current tracker.  The
  model keeps an explicit store: an address is an index into the list \<open>heap\<close>, a
  pointer is an \<open>addr option\<close> (\<open>None\<close> is \<^verbatim>\<open>CATCH_NULL\<close>), and \<^verbatim>\<open>new\<close> appends a cell.
  Cells are never removed: a tracker dropped by \<^verbatim>\<open>m_children.clear()\<close> or by a second
  \<^verbatim>\<open>startRun\<close> stays in the list as garbage that no tracker reaches any more.
\<close>

type_synonym addr = nat

text \<open>\<^verbatim>\<open>PartTrackerBase::RunState\<close>.\<close>

datatype RunState =
  NotStarted | Executing | ExecutingChildren | NeedsAnotherRun | CompletedSuccessfully | Failed

text \<open>\<^verbatim>\<open>TrackerContext::RunState\<close> (its first two names are prefixed, they clash with the above).\<close>

datatype CtxRunState = Ctx_NotStarted | Ctx_Executing | CompletedCycle

text \<open>
  The dynamic type of a tracker.  \<open>IndexTracker sz ix\<close> carries \<^verbatim>\<open>m_size\<close> and \<^verbatim>\<open>m_index\<close>, in
  this order (C++ \<^verbatim>\<open>int\<close>; signed overflow is undefined in C++, and the model uses
  unbounded integers: it describes the runs in which \<^verbatim>\<open>m_index++\<close> does not overflow).
\<close>

datatype variant = SectionTracker | IndexTracker int int

record PartTracker =
  variant :: variant
  m_name :: string
  m_parent :: "addr option"
  m_children :: "addr list"
  m_runState :: RunState

record TrackerContext =
  heap :: "PartTracker list"
  m_rootPart :: "addr option"
  m_currentPart :: "addr option"
  ctx_runState :: CtxRunState

text \<open>
  What stops a call: a failed \<^verbatim>\<open>assert\<close> (the assertions are taken as compiled in, that
  is, without \<^verbatim>\<open>NDEBUG\<close>), the \<^verbatim>\<open>std::logic_error\<close> thrown by \<^verbatim>\<open>close\<close>, and the use of a
  null (or invalid) pointer.  The model does not follow a run beyond the call that was
  stopped.
\<close>

datatype error = AssertionFailed | LogicError | NullDereference

subsection \<open>The store\<close>

definition deref :: "TrackerContext \<Rightarrow> addr \<Rightarrow> PartTracker option" where
  "deref c a = (if a < length (heap c) then Some (heap c ! a) else None)"

definition store :: "TrackerContext \<Rightarrow> addr \<Rightarrow> PartTracker \<Rightarrow> TrackerContext" where
  "store c a t = c\<lparr>heap := (heap c)[a := t]\<rparr>"

definition alloc :: "TrackerContext \<Rightarrow> PartTracker \<Rightarrow> TrackerContext \<times> addr" where
  "alloc c t = (c\<lparr>heap := heap c @ [t]\<rparr>, length (heap c))"

section \<open>TrackerContext\<close>

text \<open>The constructor \<^verbatim>\<open>TrackerContext()\<close>, with an empty store.\<close>

definition TrackerContext_new :: TrackerContext where
  "TrackerContext_new =
     \<lparr>heap = [], m_rootPart = None, m_currentPart = None, ctx_runState = Ctx_NotStarted\<rparr>"

definition endRun :: "TrackerContext \<Rightarrow> TrackerContext" where
  "endRun c = c\<lparr>m_rootPart := None, m_currentPart := None, ctx_runState := Ctx_NotStarted\<rparr>"

definition startCycle :: "TrackerContext \<Rightarrow> TrackerContext" where
  "startCycle c = c\<lparr>m_currentPart := m_rootPart c, ctx_runState := Ctx_Executing\<rparr>"

definition completeCycle :: "TrackerContext \<Rightarrow> TrackerContext" where
  "completeCycle c = c\<lparr>ctx_runState := CompletedCycle\<rparr>"

definition completedCycle :: "TrackerContext \<Rightarrow> bool" where
  "completedCycle c = (ctx_runState c = CompletedCycle)"

definition setCurrentPart :: "TrackerContext \<Rightarrow> addr option \<Rightarrow> TrackerContext" where
  "setCurrentPart c p = c\<lparr>m_currentPart := p\<rparr>"

section \<open>PartTrackerBase\<close>

text \<open>The constructors: both start in \<open>NotStarted\<close>, an index tracker with index \<open>-1\<close>.\<close>

definition SectionTracker_new :: "string \<Rightarrow> addr option \<Rightarrow> PartTracker" where
  "SectionTracker_new name parent =
     \<lparr>variant = SectionTracker, m_name = name, m_parent = parent, m_children = [],
      m_runState = NotStarted\<rparr>"

definition IndexTracker_new :: "string \<Rightarrow> addr option \<Rightarrow> int \<Rightarrow> PartTracker" where
  "IndexTracker_new name parent sz =
     \<lparr>variant = IndexTracker sz (- 1), m_name = name, m_parent = parent, m_children = [],
      m_runState = NotStarted\<rparr>"

definition hasEnded :: "PartTracker \<Rightarrow> bool" where
  "hasEnded t = (m_runState t = CompletedSuccessfully \<or> m_runState t = Failed)"

definition isSuccessfullyCompleted :: "PartTracker \<Rightarrow> bool" where
  "isSuccessfullyCompleted t = (m_runState t = CompletedSuccessfully)"

definition hasStarted :: "PartTracker \<Rightarrow> bool" where
  "hasStarted t = (m_runState t \<noteq> NotStarted)"

definition isOpen :: "PartTracker \<Rightarrow> bool" where
  "isOpen t = (hasStarted t \<and> \<not> hasEnded t)"

text \<open>\<^verbatim>\<open>addChild\<close>: \<^verbatim>\<open>m_children.push_back( child )\<close>.\<close>

definition addChild :: "TrackerContext \<Rightarrow> addr \<Rightarrow> addr \<Rightarrow> error + TrackerContext" where
  "addChild c this child =
     (case deref c this of
        None \<Rightarrow> Inl NullDereference
      | Some t \<Rightarrow> Inr (store c this (t\<lparr>m_children := m_children t @ [child]\<rparr>)))"

text \<open>
  \<^verbatim>\<open>findChild\<close>: \<^verbatim>\<open>std::find_if\<close> with \<^verbatim>\<open>TrackerHasName\<close>; the first child of that name.
  It is given the tracker that \<^verbatim>\<open>this\<close> points at.
\<close>

definition TrackerHasName :: "TrackerContext \<Rightarrow> string \<Rightarrow> addr \<Rightarrow> bool" where
  "TrackerHasName c name tracker =
     (case deref c tracker of None \<Rightarrow> False | Some k \<Rightarrow> m_name k = name)"

definition findChild :: "TrackerContext \<Rightarrow> PartTracker \<Rightarrow> string \<Rightarrow> addr option" where
  "findChild c t name = find (TrackerHasName c name) (m_children t)"

definition markAsNeedingAnotherRun :: "TrackerContext \<Rightarrow> addr \<Rightarrow> error + TrackerContext" where
  "markAsNeedingAnotherRun c this =
     (case deref c this of
        None \<Rightarrow> Inl NullDereference
      | Some t \<Rightarrow> Inr (store c this (t\<lparr>m_runState := NeedsAnotherRun\<rparr>)))"

text \<open>
  \<^verbatim>\<open>openChild\<close> climbs the parent pointers and stops at the first tracker that is already
  \<open>ExecutingChildren\<close>.  Every call that goes on has just turned one more cell into
  \<open>ExecutingChildren\<close>, which is why the recursion ends on any store.
\<close>

definition notExecutingChildren :: "TrackerContext \<Rightarrow> nat" where
  "notExecutingChildren c = length (filter (\<lambda>t. m_runState t \<noteq> ExecutingChildren) (heap c))"

function openChild :: "TrackerContext \<Rightarrow> addr \<Rightarrow> error + TrackerContext" where
  "openChild c this =
     (case deref c this of
        None \<Rightarrow> Inl NullDereference
      | Some t \<Rightarrow>
          if m_runState t \<noteq> ExecutingChildren then
            (case m_parent t of
               None \<Rightarrow> Inr (store c this (t\<lparr>m_runState := ExecutingChildren\<rparr>))
             | Some p \<Rightarrow> openChild (store c this (t\<lparr>m_runState := ExecutingChildren\<rparr>)) p)
          else Inr c)"
  by pat_completeness auto

lemma length_filter_update_less:
  fixes P :: "'a \<Rightarrow> bool"
  shows "a < length xs \<Longrightarrow> P (xs ! a) \<Longrightarrow> \<not> P t \<Longrightarrow>
    length (filter P (xs[a := t])) < length (filter P xs)"
proof (induction xs arbitrary: a)
  case Nil
  then show ?case by simp
next
  case (Cons x xs)
  show ?case
  proof (cases a)
    case 0
    with Cons.prems show ?thesis by simp
  next
    case (Suc k)
    with Cons.prems have "length (filter P (xs[k := t])) < length (filter P xs)"
      by (intro Cons.IH) simp_all
    with Suc show ?thesis by simp
  qed
qed

lemma notExecutingChildren_store:
  assumes "a < length (heap c)" and "m_runState (heap c ! a) \<noteq> ExecutingChildren"
    and "m_runState t = ExecutingChildren"
  shows "notExecutingChildren (store c a t) < notExecutingChildren c"
  using length_filter_update_less
    [of a "heap c" "\<lambda>t. m_runState t \<noteq> ExecutingChildren" t] assms
  by (simp add: notExecutingChildren_def store_def)

termination openChild
proof (relation "measure (\<lambda>(c, this). notExecutingChildren c)")
  show "wf (measure (\<lambda>(c, this). notExecutingChildren c))" by simp
next
  fix c this t p
  assume "deref c this = Some t" and "m_runState t \<noteq> ExecutingChildren"
  then have "this < length (heap c)" and "m_runState (heap c ! this) \<noteq> ExecutingChildren"
    by (auto simp: deref_def split: if_splits)
  then have "notExecutingChildren (store c this (t\<lparr>m_runState := ExecutingChildren\<rparr>))
               < notExecutingChildren c"
    by (rule notExecutingChildren_store) simp
  then show "((store c this (t\<lparr>m_runState := ExecutingChildren\<rparr>), p), (c, this))
               \<in> measure (\<lambda>(c, this). notExecutingChildren c)"
    by simp
qed

declare openChild.simps [simp del]

text \<open>\<^verbatim>\<open>moveToThis\<close> and \<^verbatim>\<open>moveToParent\<close>; the latter asserts that there is a parent.\<close>

definition moveToThis :: "TrackerContext \<Rightarrow> addr \<Rightarrow> TrackerContext" where
  "moveToThis c this = setCurrentPart c (Some this)"

definition moveToParent :: "TrackerContext \<Rightarrow> addr \<Rightarrow> error + TrackerContext" where
  "moveToParent c this =
     (case deref c this of
        None \<Rightarrow> Inl NullDereference
      | Some t \<Rightarrow>
          (case m_parent t of
             None \<Rightarrow> Inl AssertionFailed
           | Some p \<Rightarrow> Inr (setCurrentPart c (Some p))))"

text \<open>\<^verbatim>\<open>open\<close> (named \<open>open_part\<close> here).\<close>

definition open_part :: "TrackerContext \<Rightarrow> addr \<Rightarrow> error + TrackerContext" where
  "open_part c this =
     (case deref c this of
        None \<Rightarrow> Inl NullDereference
      | Some t \<Rightarrow>
          (case m_parent t of
             None \<Rightarrow> Inr (moveToThis (store c this (t\<lparr>m_runState := Executing\<rparr>)) this)
           | Some p \<Rightarrow>
               openChild (moveToThis (store c this (t\<lparr>m_runState := Executing\<rparr>)) this) p))"

text \<open>
  The end of \<^verbatim>\<open>close\<close> and of \<^verbatim>\<open>fail\<close>: \<^verbatim>\<open>moveToParent(); m_ctx.completeCycle();\<close>.
\<close>

definition leave :: "TrackerContext \<Rightarrow> addr \<Rightarrow> error + TrackerContext" where
  "leave c this =
     (case moveToParent c this of Inl e \<Rightarrow> Inl e | Inr c' \<Rightarrow> Inr (completeCycle c'))"

text \<open>
  \<^verbatim>\<open>PartTrackerBase::close\<close> after its \<^verbatim>\<open>while\<close> loop: the \<^verbatim>\<open>switch\<close> on the state, then
  \<^verbatim>\<open>moveToParent\<close> and \<^verbatim>\<open>completeCycle\<close>.  The two ended states return before
  either; \<open>NotStarted\<close> is the \<^verbatim>\<open>default\<close> branch, which throws.
\<close>

definition PartTrackerBase_close_switch :: "TrackerContext \<Rightarrow> addr \<Rightarrow> error + TrackerContext" where
  "PartTrackerBase_close_switch c this =
     (case deref c this of
        None \<Rightarrow> Inl NullDereference
      | Some t \<Rightarrow>
          (case m_runState t of
             CompletedSuccessfully \<Rightarrow> Inr c
           | Failed \<Rightarrow> Inr c
           | Executing \<Rightarrow> leave (store c this (t\<lparr>m_runState := CompletedSuccessfully\<rparr>)) this
           | ExecutingChildren \<Rightarrow>
               (if m_children t = [] then
                  leave (store c this (t\<lparr>m_runState := CompletedSuccessfully\<rparr>)) this
                else
                  (case deref c (last (m_children t)) of
                     None \<Rightarrow> Inl NullDereference
                   | Some k \<Rightarrow>
                       if hasEnded k then
                         leave (store c this (t\<lparr>m_runState := CompletedSuccessfully\<rparr>)) this
                       else leave c this))
           | NeedsAnotherRun \<Rightarrow> leave (store c this (t\<lparr>m_runState := Executing\<rparr>)) this
           | NotStarted \<Rightarrow> Inl LogicError))"

text \<open>
  \<^verbatim>\<open>IndexTracker::close\<close> after its call of the base \<^verbatim>\<open>close\<close>: a tracker that has just
  completed goes back to \<open>Executing\<close> while indices are left.
\<close>

definition IndexTracker_close_after :: "TrackerContext \<Rightarrow> addr \<Rightarrow> error + TrackerContext" where
  "IndexTracker_close_after c this =
     (case deref c this of
        None \<Rightarrow> Inl NullDereference
      | Some t \<Rightarrow>
          (case variant t of
             SectionTracker \<Rightarrow> Inr c
           | IndexTracker sz ix \<Rightarrow>
               if m_runState t = CompletedSuccessfully then
                 if ix < sz - 1 then Inr (store c this (t\<lparr>m_runState := Executing\<rparr>)) else Inr c
               else Inr c))"

text \<open>
  \<^verbatim>\<open>close\<close> is virtual and calls itself from its own loop (\<^verbatim>\<open>m_ctx.currentPart().close()\<close>),
  and the loop has no bound in the source.  The functions below take fuel, one unit per
  iteration of a loop: the result \<open>None\<close> says that a loop was still running when the
  fuel ran out, \<open>Some (Inl e)\<close> that the call was stopped by \<open>e\<close>, \<open>Some (Inr c)\<close> that
  it returned with the context \<open>c\<close>.
  \<^item> \<open>drain\<close> is the loop \<^verbatim>\<open>while( &m_ctx.currentPart() != this ) m_ctx.currentPart().close()\<close>;
  \<^item> \<open>PartTrackerBase_close\<close> and \<open>IndexTracker_close\<close> are the two implementations;
  \<^item> \<open>close\<close> is the virtual call, which selects by the dynamic type.
\<close>

fun drain :: "nat \<Rightarrow> TrackerContext \<Rightarrow> addr \<Rightarrow> (error + TrackerContext) option"
  and PartTrackerBase_close :: "nat \<Rightarrow> TrackerContext \<Rightarrow> addr \<Rightarrow> (error + TrackerContext) option"
  and IndexTracker_close :: "nat \<Rightarrow> TrackerContext \<Rightarrow> addr \<Rightarrow> (error + TrackerContext) option"
  and close :: "nat \<Rightarrow> TrackerContext \<Rightarrow> addr \<Rightarrow> (error + TrackerContext) option"
  where
  "drain 0 c this =
     (case m_currentPart c of
        None \<Rightarrow> Some (Inl NullDereference)
      | Some cur \<Rightarrow> if cur = this then Some (Inr c) else None)"
| "drain (Suc fuel) c this =
     (case m_currentPart c of
        None \<Rightarrow> Some (Inl NullDereference)
      | Some cur \<Rightarrow>
          if cur = this then Some (Inr c)
          else
            (case close fuel c cur of
               None \<Rightarrow> None
             | Some (Inl e) \<Rightarrow> Some (Inl e)
             | Some (Inr c') \<Rightarrow> drain fuel c' this))"
| "PartTrackerBase_close fuel c this =
     (case drain fuel c this of
        None \<Rightarrow> None
      | Some (Inl e) \<Rightarrow> Some (Inl e)
      | Some (Inr c') \<Rightarrow> Some (PartTrackerBase_close_switch c' this))"
| "IndexTracker_close fuel c this =
     (case PartTrackerBase_close fuel c this of
        None \<Rightarrow> None
      | Some (Inl e) \<Rightarrow> Some (Inl e)
      | Some (Inr c') \<Rightarrow> Some (IndexTracker_close_after c' this))"
| "close fuel c this =
     (case deref c this of
        None \<Rightarrow> Some (Inl NullDereference)
      | Some t \<Rightarrow>
          (case variant t of
             SectionTracker \<Rightarrow> PartTrackerBase_close fuel c this
           | IndexTracker sz ix \<Rightarrow> IndexTracker_close fuel c this))"

declare drain.simps [simp del] PartTrackerBase_close.simps [simp del]
  IndexTracker_close.simps [simp del] close.simps [simp del]

text \<open>\<^verbatim>\<open>PartTrackerBase::fail\<close>.\<close>

definition fail :: "TrackerContext \<Rightarrow> addr \<Rightarrow> error + TrackerContext" where
  "fail c this =
     (case deref c this of
        None \<Rightarrow> Inl NullDereference
      | Some t \<Rightarrow>
          (case m_parent t of
             None \<Rightarrow> leave (store c this (t\<lparr>m_runState := Failed\<rparr>)) this
           | Some p \<Rightarrow>
               (case markAsNeedingAnotherRun (store c this (t\<lparr>m_runState := Failed\<rparr>)) p of
                  Inl e \<Rightarrow> Inl e
                | Inr c' \<Rightarrow> leave c' this)))"

section \<open>SectionTracker and IndexTracker\<close>

text \<open>
  \<^verbatim>\<open>SectionTracker::acquire\<close>.  A \<^verbatim>\<open>dynamic_cast\<close> to the wrong variant gives null, and the
  \<^verbatim>\<open>assert\<close> after it fails.  The result is the context and the address of the section.
\<close>

definition SectionTracker_acquire ::
  "TrackerContext \<Rightarrow> string \<Rightarrow> error + (TrackerContext \<times> addr)" where
  "SectionTracker_acquire c name =
     (case m_currentPart c of
        None \<Rightarrow> Inl NullDereference
      | Some cur \<Rightarrow>
          (case deref c cur of
             None \<Rightarrow> Inl NullDereference
           | Some ct \<Rightarrow>
               (case (case findChild c ct name of
                        Some part \<Rightarrow>
                          (case deref c part of
                             None \<Rightarrow> Inl NullDereference
                           | Some pt \<Rightarrow>
                               (case variant pt of
                                  SectionTracker \<Rightarrow> Inr (c, part)
                                | IndexTracker sz ix \<Rightarrow> Inl AssertionFailed))
                      | None \<Rightarrow>
                          (case alloc c (SectionTracker_new name (Some cur)) of
                             (c1, section) \<Rightarrow>
                               (case addChild c1 cur section of
                                  Inl e \<Rightarrow> Inl e
                                | Inr c2 \<Rightarrow> Inr (c2, section)))) of
                  Inl e \<Rightarrow> Inl e
                | Inr (c2, section) \<Rightarrow>
                    (case deref c2 section of
                       None \<Rightarrow> Inl NullDereference
                     | Some st \<Rightarrow>
                         if \<not> completedCycle c2 \<and> \<not> hasEnded st then
                           (case open_part c2 section of
                              Inl e \<Rightarrow> Inl e
                            | Inr c3 \<Rightarrow> Inr (c3, section))
                         else Inr (c2, section)))))"

text \<open>
  \<^verbatim>\<open>moveNext\<close>: \<^verbatim>\<open>m_index++; m_children.clear()\<close>.  It is a member of \<^verbatim>\<open>IndexTracker\<close>, and
  \<^verbatim>\<open>acquire\<close> calls it on index trackers only; the branch for a section is never taken.
\<close>

definition moveNext :: "TrackerContext \<Rightarrow> addr \<Rightarrow> error + TrackerContext" where
  "moveNext c this =
     (case deref c this of
        None \<Rightarrow> Inl NullDereference
      | Some t \<Rightarrow>
          (case variant t of
             SectionTracker \<Rightarrow> Inl AssertionFailed
           | IndexTracker sz ix \<Rightarrow>
               Inr (store c this (t\<lparr>variant := IndexTracker sz (ix + 1), m_children := []\<rparr>))))"


definition m_size :: "PartTracker \<Rightarrow> int option" where
  "m_size t = (case variant t of SectionTracker \<Rightarrow> None | IndexTracker sz ix \<Rightarrow> Some sz)"

text \<open>\<^verbatim>\<open>IndexTracker::acquire\<close>.  The size is used by the constructor only.\<close>

definition IndexTracker_acquire ::
  "TrackerContext \<Rightarrow> string \<Rightarrow> int \<Rightarrow> error + (TrackerContext \<times> addr)" where
  "IndexTracker_acquire c name sz =
     (case m_currentPart c of
        None \<Rightarrow> Inl NullDereference
      | Some cur \<Rightarrow>
          (case deref c cur of
             None \<Rightarrow> Inl NullDereference
           | Some ct \<Rightarrow>
               (case (case findChild c ct name of
                        Some part \<Rightarrow>
                          (case deref c part of
                             None \<Rightarrow> Inl NullDereference
                           | Some pt \<Rightarrow>
                               (case variant pt of
                                  SectionTracker \<Rightarrow> Inl AssertionFailed
                                | IndexTracker sz0 ix \<Rightarrow> Inr (c, part)))
                      | None \<Rightarrow>
                          (case alloc c (IndexTracker_new name (Some cur) sz) of
                             (c1, tracker) \<Rightarrow>
                               (case addChild c1 cur tracker of
                                  Inl e \<Rightarrow> Inl e
                                | Inr c2 \<Rightarrow> Inr (c2, tracker)))) of
                  Inl e \<Rightarrow> Inl e
                | Inr (c2, tracker) \<Rightarrow>
                    (case deref c2 tracker of
                       None \<Rightarrow> Inl NullDereference
                     | Some tt \<Rightarrow>
                         if \<not> completedCycle c2 \<and> \<not> hasEnded tt then
                           (case (if m_runState tt \<noteq> ExecutingChildren then moveNext c2 tracker
                                  else Inr c2) of
                              Inl e \<Rightarrow> Inl e
                            | Inr c3 \<Rightarrow>
                                (case open_part c3 tracker of
                                   Inl e \<Rightarrow> Inl e
                                 | Inr c4 \<Rightarrow> Inr (c4, tracker)))
                         else Inr (c2, tracker)))))"

text \<open>
  \<^verbatim>\<open>TrackerContext::startRun\<close>: a new root section without parent; nothing is checked.
\<close>

definition startRun :: "TrackerContext \<Rightarrow> TrackerContext \<times> addr" where
  "startRun c =
     (case alloc c (SectionTracker_new ''{root}'' None) of
        (c', root) \<Rightarrow>
          (c'\<lparr>m_rootPart := Some root, m_currentPart := None, ctx_runState := Ctx_Executing\<rparr>,
           root))"

section \<open>Sequences of calls\<close>

text \<open>
  What a host (the test case at the end of \<^verbatim>\<open>PartTrackerTests.cpp\<close>) does with the
  tracker is a sequence of calls.  A tracker is named by its address, as the test
  names it by the reference that \<^verbatim>\<open>acquire\<close> returned.  \<open>run\<close> stops at the first call
  that is stopped; a context is reachable when some sequence of calls leads to it from
  the freshly constructed context.
\<close>

datatype api_call =
  StartRun | EndRun | StartCycle | AcquireSection string | AcquireIndex string int
  | Close addr | Fail addr

fun perform :: "nat \<Rightarrow> api_call \<Rightarrow> TrackerContext \<Rightarrow> (error + TrackerContext) option" where
  "perform fuel StartRun c = Some (Inr (fst (startRun c)))"
| "perform fuel EndRun c = Some (Inr (endRun c))"
| "perform fuel StartCycle c = Some (Inr (startCycle c))"
| "perform fuel (AcquireSection name) c =
     (case SectionTracker_acquire c name of
        Inl e \<Rightarrow> Some (Inl e)
      | Inr (c', a) \<Rightarrow> Some (Inr c'))"
| "perform fuel (AcquireIndex name sz) c =
     (case IndexTracker_acquire c name sz of
        Inl e \<Rightarrow> Some (Inl e)
      | Inr (c', a) \<Rightarrow> Some (Inr c'))"
| "perform fuel (Close a) c = close fuel c a"
| "perform fuel (Fail a) c = Some (fail c a)"

fun run :: "nat \<Rightarrow> api_call list \<Rightarrow> TrackerContext \<Rightarrow> (error + TrackerContext) option" where
  "run fuel [] c = Some (Inr c)"
| "run fuel (x # xs) c =
     (case perform fuel x c of
        None \<Rightarrow> None
      | Some (Inl e) \<Rightarrow> Some (Inl e)
      | Some (Inr c') \<Rightarrow> run fuel xs c')"

definition reachable :: "TrackerContext \<Rightarrow> bool" where
  "reachable c = (\<exists>fuel xs. run fuel xs TrackerContext_new = Some (Inr c))"

text \<open>
  The opening of the test case: \<^verbatim>\<open>startRun\<close>, \<^verbatim>\<open>startCycle\<close>, then \<open>Testcase\<close> and \<open>S1\<close>
  are acquired.  The root is at address 0, \<open>Testcase\<close> at 1 and \<open>S1\<close> at 2.
\<close>

definition open_S1 :: "api_call list" where
  "open_S1 = [StartRun, StartCycle, AcquireSection ''Testcase'', AcquireSection ''S1'']"

section \<open>A call of close on the current tracker\<close>

text \<open>
  When the tracker that is closed is the current one, the loop of \<^verbatim>\<open>close\<close> has nothing
  to do, and the virtual call is the \<^verbatim>\<open>switch\<close> followed, on an index tracker, by the
  step of \<^verbatim>\<open>IndexTracker::close\<close>.  This is the case of every call that the loop makes
  (\<open>close_is_close_current\<close> below).
\<close>

definition close_current :: "TrackerContext \<Rightarrow> addr \<Rightarrow> error + TrackerContext" where
  "close_current c this =
     (case deref c this of
        None \<Rightarrow> Inl NullDereference
      | Some t \<Rightarrow>
          (case variant t of
             SectionTracker \<Rightarrow> PartTrackerBase_close_switch c this
           | IndexTracker sz ix \<Rightarrow>
               (case PartTrackerBase_close_switch c this of
                  Inl e \<Rightarrow> Inl e
                | Inr c' \<Rightarrow> IndexTracker_close_after c' this)))"

text \<open>
  The context after \<^verbatim>\<open>acquire\<close> has created a tracker \<open>new\<close> and added it to the children
  of the current tracker \<open>cur\<close> (whose cell held \<open>ct\<close>): the new cell is at the end of
  the store.
\<close>

definition with_child :: "TrackerContext \<Rightarrow> addr \<Rightarrow> PartTracker \<Rightarrow> PartTracker \<Rightarrow> TrackerContext" where
  "with_child c cur ct new =
     c\<lparr>heap := (heap c @ [new])[cur := ct\<lparr>m_children := m_children ct @ [length (heap c)]\<rparr>]\<rparr>"

section \<open>An invariant of the index trackers\<close>

text \<open>
  \<^verbatim>\<open>IndexTracker::close\<close> never leaves an index tracker \<open>CompletedSuccessfully\<close> while
  indices are left, and no other function sets that state.  The invariant says so of
  every cell of the store.
\<close>

definition exhausted_if_completed :: "PartTracker \<Rightarrow> bool" where
  "exhausted_if_completed t =
     (case variant t of
        SectionTracker \<Rightarrow> True
      | IndexTracker sz ix \<Rightarrow> m_runState t = CompletedSuccessfully \<longrightarrow> sz - 1 \<le> ix)"

definition index_invariant :: "TrackerContext \<Rightarrow> bool" where
  "index_invariant c = list_all exhausted_if_completed (heap c)"

section \<open>Chains of open trackers\<close>

text \<open>
  \<open>open_chain c cur xs this\<close>: following the parent pointers from \<open>cur\<close> one passes
  through the trackers \<open>xs\<close>, in this order, and arrives at \<open>this\<close>; none of them is
  \<open>this\<close>, each of them is open (\<open>Executing\<close>, \<open>ExecutingChildren\<close> or \<open>NeedsAnotherRun\<close>),
  and the pointer to the last child of each, if it has children, is valid.
\<close>

fun open_chain :: "TrackerContext \<Rightarrow> addr \<Rightarrow> addr list \<Rightarrow> addr \<Rightarrow> bool" where
  "open_chain c cur [] this = (cur = this)"
| "open_chain c cur (x # xs) this =
     (cur = x \<and> x \<noteq> this \<and>
      (case deref c x of
         None \<Rightarrow> False
       | Some t \<Rightarrow>
           isOpen t \<and>
           (m_children t = [] \<or> deref c (last (m_children t)) \<noteq> None) \<and>
           (case m_parent t of
              None \<Rightarrow> False
            | Some p \<Rightarrow> open_chain c p xs this)))"

section \<open>The tree of trackers\<close>

text \<open>
  \<open>ancestor c a b\<close>: following the parent pointers from \<open>a\<close> (zero or more steps) one
  arrives at \<open>b\<close>.
\<close>

inductive ancestor :: "TrackerContext \<Rightarrow> addr \<Rightarrow> addr \<Rightarrow> bool"
  for c :: TrackerContext and a :: addr where
  ancestor_self: "ancestor c a a"
| ancestor_parent:
    "ancestor c a b \<Longrightarrow> deref c b = Some t \<Longrightarrow> m_parent t = Some p \<Longrightarrow> ancestor c a p"

text \<open>
  \<open>states_changed c c'\<close>: the stores of \<open>c\<close> and \<open>c'\<close> have the same cells up to their
  run-states.  This is what \<^verbatim>\<open>open\<close>, \<^verbatim>\<open>close\<close> and \<^verbatim>\<open>fail\<close> do to the store.
\<close>

definition states_changed :: "TrackerContext \<Rightarrow> TrackerContext \<Rightarrow> bool" where
  "states_changed c c' =
     (length (heap c') = length (heap c) \<and>
      (\<forall>b t. deref c b = Some t \<longrightarrow> (\<exists>s. deref c' b = Some (t\<lparr>m_runState := s\<rparr>))))"

text \<open>
  Three facts that hold in every context that calls of the API lead to (shown below):
  \<^item> \<open>chain_open\<close>: as long as the cycle is not marked completed, no tracker on the way from
    the current tracker up to the root has ended;
  \<^item> \<open>root_open\<close>: the root has no parent and has not ended (a \<^verbatim>\<open>close\<close> or \<^verbatim>\<open>fail\<close> that
    would end it is stopped in \<^verbatim>\<open>moveToParent\<close>);
  \<^item> \<open>children_linked\<close>: every child listed in \<^verbatim>\<open>m_children\<close> points back at its parent.
\<close>

definition chain_open :: "TrackerContext \<Rightarrow> bool" where
  "chain_open c =
     (completedCycle c \<or>
      (\<forall>cur a t. m_currentPart c = Some cur \<longrightarrow> ancestor c cur a \<longrightarrow> deref c a = Some t \<longrightarrow>
         \<not> hasEnded t))"

definition root_open :: "TrackerContext \<Rightarrow> bool" where
  "root_open c =
     (\<forall>r. m_rootPart c = Some r \<longrightarrow>
        (\<exists>rt. deref c r = Some rt \<and> m_parent rt = None \<and> \<not> hasEnded rt))"

definition children_linked :: "TrackerContext \<Rightarrow> bool" where
  "children_linked c =
     (\<forall>a t ch. deref c a = Some t \<longrightarrow> ch \<in> set (m_children t) \<longrightarrow>
        (\<exists>u. deref c ch = Some u \<and> m_parent u = Some a))"

definition tree_invariant :: "TrackerContext \<Rightarrow> bool" where
  "tree_invariant c = (chain_open c \<and> root_open c \<and> children_linked c)"

section \<open>Contexts of the test case\<close>

text \<open>
  The contexts that the sections of the test case pass through, written out.  Each is
  shown further down to be what the calls of the test produce.
\<close>

text \<open>After \<open>open_S1\<close>: \<open>S1\<close> is open and current.\<close>

definition ctx_S1_open :: TrackerContext where
  "ctx_S1_open =
     \<lparr>heap =
        [\<lparr>variant = SectionTracker, m_name = ''{root}'', m_parent = None,
          m_children = [1], m_runState = ExecutingChildren\<rparr>,
         \<lparr>variant = SectionTracker, m_name = ''Testcase'', m_parent = Some 0,
          m_children = [2], m_runState = ExecutingChildren\<rparr>,
         \<lparr>variant = SectionTracker, m_name = ''S1'', m_parent = Some 1,
          m_children = [], m_runState = Executing\<rparr>],
      m_rootPart = Some 0, m_currentPart = Some 2, ctx_runState = Ctx_Executing\<rparr>"

text \<open>Then \<^verbatim>\<open>s1.close()\<close>.\<close>

definition ctx_S1_closed :: TrackerContext where
  "ctx_S1_closed =
     \<lparr>heap =
        [\<lparr>variant = SectionTracker, m_name = ''{root}'', m_parent = None,
          m_children = [1], m_runState = ExecutingChildren\<rparr>,
         \<lparr>variant = SectionTracker, m_name = ''Testcase'', m_parent = Some 0,
          m_children = [2], m_runState = ExecutingChildren\<rparr>,
         \<lparr>variant = SectionTracker, m_name = ''S1'', m_parent = Some 1,
          m_children = [], m_runState = CompletedSuccessfully\<rparr>],
      m_rootPart = Some 0, m_currentPart = Some 1, ctx_runState = CompletedCycle\<rparr>"

text \<open>Then \<^verbatim>\<open>testCase.close()\<close>.\<close>

definition ctx_Testcase_closed :: TrackerContext where
  "ctx_Testcase_closed =
     \<lparr>heap =
        [\<lparr>variant = SectionTracker, m_name = ''{root}'', m_parent = None,
          m_children = [1], m_runState = ExecutingChildren\<rparr>,
         \<lparr>variant = SectionTracker, m_name = ''Testcase'', m_parent = Some 0,
          m_children = [2], m_runState = CompletedSuccessfully\<rparr>,
         \<lparr>variant = SectionTracker, m_name = ''S1'', m_parent = Some 1,
          m_children = [], m_runState = CompletedSuccessfully\<rparr>],
      m_rootPart = Some 0, m_currentPart = Some 0, ctx_runState = CompletedCycle\<rparr>"

text \<open>After \<open>open_S1\<close> and \<^verbatim>\<open>s1.fail()\<close>.\<close>

definition ctx_S1_failed :: TrackerContext where
  "ctx_S1_failed =
     \<lparr>heap =
        [\<lparr>variant = SectionTracker, m_name = ''{root}'', m_parent = None,
          m_children = [1], m_runState = ExecutingChildren\<rparr>,
         \<lparr>variant = SectionTracker, m_name = ''Testcase'', m_parent = Some 0,
          m_children = [2], m_runState = NeedsAnotherRun\<rparr>,
         \<lparr>variant = SectionTracker, m_name = ''S1'', m_parent = Some 1,
          m_children = [], m_runState = Failed\<rparr>],
      m_rootPart = Some 0, m_currentPart = Some 1, ctx_runState = CompletedCycle\<rparr>"

text \<open>Then \<^verbatim>\<open>testCase.close()\<close>: \<open>Testcase\<close> is \<open>Executing\<close> again.\<close>

definition ctx_Testcase_recovered :: TrackerContext where
  "ctx_Testcase_recovered =
     \<lparr>heap =
        [\<lparr>variant = SectionTracker, m_name = ''{root}'', m_parent = None,
          m_children = [1], m_runState = ExecutingChildren\<rparr>,
         \<lparr>variant = SectionTracker, m_name = ''Testcase'', m_parent = Some 0,
          m_children = [2], m_runState = Executing\<rparr>,
         \<lparr>variant = SectionTracker, m_name = ''S1'', m_parent = Some 1,
          m_children = [], m_runState = Failed\<rparr>],
      m_rootPart = Some 0, m_currentPart = Some 0, ctx_runState = CompletedCycle\<rparr>"

text \<open>
  After \<open>open_S1\<close>, \<^verbatim>\<open>s1.close()\<close> and the acquisition of \<open>S2\<close> in the same cycle: \<open>S2\<close> is
  at address 3, a child of \<open>Testcase\<close>, and not started.
\<close>

definition ctx_S2_seen :: TrackerContext where
  "ctx_S2_seen =
     \<lparr>heap =
        [\<lparr>variant = SectionTracker, m_name = ''{root}'', m_parent = None,
          m_children = [1], m_runState = ExecutingChildren\<rparr>,
         \<lparr>variant = SectionTracker, m_name = ''Testcase'', m_parent = Some 0,
          m_children = [2, 3], m_runState = ExecutingChildren\<rparr>,
         \<lparr>variant = SectionTracker, m_name = ''S1'', m_parent = Some 1,
          m_children = [], m_runState = CompletedSuccessfully\<rparr>,
         \<lparr>variant = SectionTracker, m_name = ''S2'', m_parent = Some 1,
          m_children = [], m_runState = NotStarted\<rparr>],
      m_rootPart = Some 0, m_currentPart = Some 1, ctx_runState = CompletedCycle\<rparr>"

text \<open>
  Three nested sections \<open>S1\<close>, \<open>S2\<close>, \<open>S3\<close> (addresses 2, 3, 4) under \<open>Testcase\<close>, after
  \<^verbatim>\<open>s1.fail()\<close> and \<^verbatim>\<open>s3.fail()\<close>: the current tracker is \<open>S2\<close>, inside the failed \<open>S1\<close>.
\<close>

definition nested_failures :: "api_call list" where
  "nested_failures =
     open_S1 @ [AcquireSection ''S2'', AcquireSection ''S3'', Fail 2, Fail 4]"

definition ctx_inside_failed :: TrackerContext where
  "ctx_inside_failed =
     \<lparr>heap =
        [\<lparr>variant = SectionTracker, m_name = ''{root}'', m_parent = None,
          m_children = [1], m_runState = ExecutingChildren\<rparr>,
         \<lparr>variant = SectionTracker, m_name = ''Testcase'', m_parent = Some 0,
          m_children = [2], m_runState = NeedsAnotherRun\<rparr>,
         \<lparr>variant = SectionTracker, m_name = ''S1'', m_parent = Some 1,
          m_children = [3], m_runState = Failed\<rparr>,
         \<lparr>variant = SectionTracker, m_name = ''S2'', m_parent = Some 2,
          m_children = [4], m_runState = NeedsAnotherRun\<rparr>,
         \<lparr>variant = SectionTracker, m_name = ''S3'', m_parent = Some 3,
          m_children = [], m_runState = Failed\<rparr>],
      m_rootPart = Some 0, m_currentPart = Some 3, ctx_runState = CompletedCycle\<rparr>"

text \<open>Then \<^verbatim>\<open>s2.close()\<close>: the current tracker is \<open>S1\<close>, which is \<open>Failed\<close>.\<close>

definition ctx_current_failed :: TrackerContext where
  "ctx_current_failed =
     \<lparr>heap =
        [\<lparr>variant = SectionTracker, m_name = ''{root}'', m_parent = None,
          m_children = [1], m_runState = ExecutingChildren\<rparr>,
         \<lparr>variant = SectionTracker, m_name = ''Testcase'', m_parent = Some 0,
          m_children = [2], m_runState = NeedsAnotherRun\<rparr>,
         \<lparr>variant = SectionTracker, m_name = ''S1'', m_parent = Some 1,
          m_children = [3], m_runState = Failed\<rparr>,
         \<lparr>variant = SectionTracker, m_name = ''S2'', m_parent = Some 2,
          m_children = [4], m_runState = Executing\<rparr>,
         \<lparr>variant = SectionTracker, m_name = ''S3'', m_parent = Some 3,
          m_children = [], m_runState = Failed\<rparr>],
      m_rootPart = Some 0, m_currentPart = Some 2, ctx_runState = CompletedCycle\<rparr>"

text \<open>
  The generator of the test case: \<open>G1\<close> of size 2 (address 3) inside \<open>S1\<close>.  After the
  first cycle (\<open>G1\<close> acquired, \<open>S1\<close> and \<open>Testcase\<close> closed) the second cycle has opened
  \<open>Testcase\<close> and \<open>S1\<close> again and is about to acquire \<open>G1\<close>.
\<close>

definition second_generation :: "api_call list" where
  "second_generation =
     open_S1 @ [AcquireIndex ''G1'' 2, Close 2, Close 1, StartCycle,
       AcquireSection ''Testcase'', AcquireSection ''S1'']"

definition ctx_second_generation :: TrackerContext where
  "ctx_second_generation =
     \<lparr>heap =
        [\<lparr>variant = SectionTracker, m_name = ''{root}'', m_parent = None,
          m_children = [1], m_runState = ExecutingChildren\<rparr>,
         \<lparr>variant = SectionTracker, m_name = ''Testcase'', m_parent = Some 0,
          m_children = [2], m_runState = ExecutingChildren\<rparr>,
         \<lparr>variant = SectionTracker, m_name = ''S1'', m_parent = Some 1,
          m_children = [3], m_runState = Executing\<rparr>,
         \<lparr>variant = IndexTracker 2 0, m_name = ''G1'', m_parent = Some 2,
          m_children = [], m_runState = Executing\<rparr>],
      m_rootPart = Some 0, m_currentPart = Some 2, ctx_runState = Ctx_Executing\<rparr>"

text \<open>Then \<open>G1\<close> is acquired: it is open at index 1, and its size is 2.\<close>

definition ctx_G1_at_1 :: TrackerContext where
  "ctx_G1_at_1 =
     \<lparr>heap =
        [\<lparr>variant = SectionTracker, m_name = ''{root}'', m_parent = None,
          m_children = [1], m_runState = ExecutingChildren\<rparr>,
         \<lparr>variant = SectionTracker, m_name = ''Testcase'', m_parent = Some 0,
          m_children = [2], m_runState = ExecutingChildren\<rparr>,
         \<lparr>variant = SectionTracker, m_name = ''S1'', m_parent = Some 1,
          m_children = [3], m_runState = ExecutingChildren\<rparr>,
         \<lparr>variant = IndexTracker 2 1, m_name = ''G1'', m_parent = Some 2,
          m_children = [], m_runState = Executing\<rparr>],
      m_rootPart = Some 0, m_currentPart = Some 3, ctx_runState = Ctx_Executing\<rparr>"

text \<open>
  A generator \<open>G1\<close> of size 2 (address 2) with two sections \<open>S2\<close> and \<open>S3\<close> inside
  (addresses 3 and 4), in its first cycle: \<open>S2\<close> has been entered and closed, \<open>S3\<close> has
  been seen, and \<open>G1\<close> is about to be closed.
\<close>

definition two_sections_in_generator :: "api_call list" where
  "two_sections_in_generator =
     [StartRun, StartCycle, AcquireSection ''Testcase'', AcquireIndex ''G1'' 2,
      AcquireSection ''S2'', Close 3, AcquireSection ''S3'']"

definition ctx_two_sections :: TrackerContext where
  "ctx_two_sections =
     \<lparr>heap =
        [\<lparr>variant = SectionTracker, m_name = ''{root}'', m_parent = None,
          m_children = [1], m_runState = ExecutingChildren\<rparr>,
         \<lparr>variant = SectionTracker, m_name = ''Testcase'', m_parent = Some 0,
          m_children = [2], m_runState = ExecutingChildren\<rparr>,
         \<lparr>variant = IndexTracker 2 0, m_name = ''G1'', m_parent = Some 1,
          m_children = [3, 4], m_runState = ExecutingChildren\<rparr>,
         \<lparr>variant = SectionTracker, m_name = ''S2'', m_parent = Some 2,
          m_children = [], m_runState = CompletedSuccessfully\<rparr>,
         \<lparr>variant = SectionTracker, m_name = ''S3'', m_parent = Some 2,
          m_children = [], m_runState = NotStarted\<rparr>],
      m_rootPart = Some 0, m_currentPart = Some 2, ctx_runState = CompletedCycle\<rparr>"

text \<open>
  The second cycle of the section \<^verbatim>\<open>"successfully close one section, then find another"\<close>:
  after \<open>ctx_S2_seen\<close>, \<open>Testcase\<close> has been closed, the next cycle started and
  \<open>Testcase\<close> acquired again.  \<open>S1\<close> has ended, \<open>S2\<close> has not started.
\<close>

definition reenter :: "api_call list" where
  "reenter =
     open_S1 @ [Close 2, AcquireSection ''S2'', Close 1, StartCycle,
       AcquireSection ''Testcase'']"

definition ctx_reentered :: TrackerContext where
  "ctx_reentered =
     \<lparr>heap =
        [\<lparr>variant = SectionTracker, m_name = ''{root}'', m_parent = None,
          m_children = [1], m_runState = ExecutingChildren\<rparr>,
         \<lparr>variant = SectionTracker, m_name = ''Testcase'', m_parent = Some 0,
          m_children = [2, 3], m_runState = Executing\<rparr>,
         \<lparr>variant = SectionTracker, m_name = ''S1'', m_parent = Some 1,
          m_children = [], m_runState = CompletedSuccessfully\<rparr>,
         \<lparr>variant = SectionTracker, m_name = ''S2'', m_parent = Some 1,
          m_children = [], m_runState = NotStarted\<rparr>],
      m_rootPart = Some 0, m_currentPart = Some 1, ctx_runState = Ctx_Executing\<rparr>"

text \<open>
  The second cycle of the section \<^verbatim>\<open>"fail one section"\<close>: after \<open>ctx_Testcase_recovered\<close> the
  next cycle has started and \<open>Testcase\<close> has been acquired again; \<open>S1\<close> is still \<open>Failed\<close>.
\<close>

definition reenter_after_failure :: "api_call list" where
  "reenter_after_failure =
     open_S1 @ [Fail 2, Close 1, StartCycle, AcquireSection ''Testcase'']"

definition ctx_reentered_after_failure :: TrackerContext where
  "ctx_reentered_after_failure =
     \<lparr>heap =
        [\<lparr>variant = SectionTracker, m_name = ''{root}'', m_parent = None,
          m_children = [1], m_runState = ExecutingChildren\<rparr>,
         \<lparr>variant = SectionTracker, m_name = ''Testcase'', m_parent = Some 0,
          m_children = [2], m_runState = Executing\<rparr>,
         \<lparr>variant = SectionTracker, m_name = ''S1'', m_parent = Some 1,
          m_children = [], m_runState = Failed\<rparr>],
      m_rootPart = Some 0, m_currentPart = Some 1, ctx_runState = Ctx_Executing\<rparr>"


text \<open>
  After \<open>ctx_two_sections\<close>: \<open>G1\<close> and \<open>Testcase\<close> are closed, the second cycle starts,
  \<open>Testcase\<close> and \<open>G1\<close> are acquired again.  \<open>G1\<close> is open, and its index is 0 as in the
  first cycle.
\<close>

definition ctx_two_sections_second_cycle :: TrackerContext where
  "ctx_two_sections_second_cycle =
     \<lparr>heap =
        [\<lparr>variant = SectionTracker, m_name = ''{root}'', m_parent = None,
          m_children = [1], m_runState = ExecutingChildren\<rparr>,
         \<lparr>variant = SectionTracker, m_name = ''Testcase'', m_parent = Some 0,
          m_children = [2], m_runState = ExecutingChildren\<rparr>,
         \<lparr>variant = IndexTracker 2 0, m_name = ''G1'', m_parent = Some 1,
          m_children = [3, 4], m_runState = Executing\<rparr>,
         \<lparr>variant = SectionTracker, m_name = ''S2'', m_parent = Some 2,
          m_children = [], m_runState = CompletedSuccessfully\<rparr>,
         \<lparr>variant = SectionTracker, m_name = ''S3'', m_parent = Some 2,
          m_children = [], m_runState = NotStarted\<rparr>],
      m_rootPart = Some 0, m_currentPart = Some 2, ctx_runState = Ctx_Executing\<rparr>"

section \<open>A generator without nested trackers, cycle by cycle\<close>




text \<open>
  The generator of the test case in its first cycle: after \<open>open_S1\<close> the generator \<open>G1\<close>
  of size 2 is acquired (address 3); it is open, \<open>Executing\<close> and current, at index 0.
\<close>

definition ctx_G1_open :: TrackerContext where
  "ctx_G1_open =
     \<lparr>heap =
        [\<lparr>variant = SectionTracker, m_name = ''{root}'', m_parent = None,
          m_children = [1], m_runState = ExecutingChildren\<rparr>,
         \<lparr>variant = SectionTracker, m_name = ''Testcase'', m_parent = Some 0,
          m_children = [2], m_runState = ExecutingChildren\<rparr>,
         \<lparr>variant = SectionTracker, m_name = ''S1'', m_parent = Some 1,
          m_children = [3], m_runState = ExecutingChildren\<rparr>,
         \<lparr>variant = IndexTracker 2 0, m_name = ''G1'', m_parent = Some 2,
          m_children = [], m_runState = Executing\<rparr>],
      m_rootPart = Some 0, m_currentPart = Some 3, ctx_runState = Ctx_Executing\<rparr>"

text \<open>Then \<^verbatim>\<open>g1.close()\<close>: \<open>G1\<close> is \<open>Executing\<close> still, and \<open>S1\<close> is current.\<close>

definition ctx_G1_closed_at_0 :: TrackerContext where
  "ctx_G1_closed_at_0 =
     \<lparr>heap =
        [\<lparr>variant = SectionTracker, m_name = ''{root}'', m_parent = None,
          m_children = [1], m_runState = ExecutingChildren\<rparr>,
         \<lparr>variant = SectionTracker, m_name = ''Testcase'', m_parent = Some 0,
          m_children = [2], m_runState = ExecutingChildren\<rparr>,
         \<lparr>variant = SectionTracker, m_name = ''S1'', m_parent = Some 1,
          m_children = [3], m_runState = ExecutingChildren\<rparr>,
         \<lparr>variant = IndexTracker 2 0, m_name = ''G1'', m_parent = Some 2,
          m_children = [], m_runState = Executing\<rparr>],
      m_rootPart = Some 0, m_currentPart = Some 2, ctx_runState = CompletedCycle\<rparr>"

text \<open>
  A failure below a failed section.  \<open>S2\<close> (address 3) is opened inside \<open>S1\<close>
  (address 2); then \<^verbatim>\<open>s1.fail()\<close> is called, and after it \<^verbatim>\<open>s2.fail()\<close>; \<open>Testcase\<close> is
  closed, and in the next cycle \<open>Testcase\<close> and \<open>S1\<close> are acquired again.
\<close>

definition failure_below_failed :: "api_call list" where
  "failure_below_failed = open_S1 @ [AcquireSection ''S2'', Fail 2, Fail 3]"

text \<open>After \<open>open_S1\<close>, the acquisition of \<open>S2\<close> and \<^verbatim>\<open>s1.fail()\<close>: \<open>S1\<close> is \<open>Failed\<close>.\<close>

definition ctx_S1_failed_S2_open :: TrackerContext where
  "ctx_S1_failed_S2_open =
     \<lparr>heap =
        [\<lparr>variant = SectionTracker, m_name = ''{root}'', m_parent = None,
          m_children = [1], m_runState = ExecutingChildren\<rparr>,
         \<lparr>variant = SectionTracker, m_name = ''Testcase'', m_parent = Some 0,
          m_children = [2], m_runState = NeedsAnotherRun\<rparr>,
         \<lparr>variant = SectionTracker, m_name = ''S1'', m_parent = Some 1,
          m_children = [3], m_runState = Failed\<rparr>,
         \<lparr>variant = SectionTracker, m_name = ''S2'', m_parent = Some 2,
          m_children = [], m_runState = Executing\<rparr>],
      m_rootPart = Some 0, m_currentPart = Some 1, ctx_runState = CompletedCycle\<rparr>"

text \<open>Then \<^verbatim>\<open>s2.fail()\<close>: \<open>S1\<close> is \<open>NeedsAnotherRun\<close>, no longer \<open>Failed\<close>.\<close>

definition ctx_S1_marked :: TrackerContext where
  "ctx_S1_marked =
     \<lparr>heap =
        [\<lparr>variant = SectionTracker, m_name = ''{root}'', m_parent = None,
          m_children = [1], m_runState = ExecutingChildren\<rparr>,
         \<lparr>variant = SectionTracker, m_name = ''Testcase'', m_parent = Some 0,
          m_children = [2], m_runState = NeedsAnotherRun\<rparr>,
         \<lparr>variant = SectionTracker, m_name = ''S1'', m_parent = Some 1,
          m_children = [3], m_runState = NeedsAnotherRun\<rparr>,
         \<lparr>variant = SectionTracker, m_name = ''S2'', m_parent = Some 2,
          m_children = [], m_runState = Failed\<rparr>],
      m_rootPart = Some 0, m_currentPart = Some 2, ctx_runState = CompletedCycle\<rparr>"

text \<open>
  Then \<^verbatim>\<open>testCase.close()\<close>, \<^verbatim>\<open>startCycle\<close> and the acquisition of \<open>Testcase\<close> and \<open>S1\<close>:
  \<open>S1\<close> is open and current.
\<close>

definition ctx_S1_reopened :: TrackerContext where
  "ctx_S1_reopened =
     \<lparr>heap =
        [\<lparr>variant = SectionTracker, m_name = ''{root}'', m_parent = None,
          m_children = [1], m_runState = ExecutingChildren\<rparr>,
         \<lparr>variant = SectionTracker, m_name = ''Testcase'', m_parent = Some 0,
          m_children = [2], m_runState = ExecutingChildren\<rparr>,
         \<lparr>variant = SectionTracker, m_name = ''S1'', m_parent = Some 1,
          m_children = [3], m_runState = Executing\<rparr>,
         \<lparr>variant = SectionTracker, m_name = ''S2'', m_parent = Some 2,
          m_children = [], m_runState = Failed\<rparr>],
      m_rootPart = Some 0, m_currentPart = Some 2, ctx_runState = Ctx_Executing\<rparr>"

text \<open>
  \<open>Testcase\<close>, whose parent is the root, has failed: after \<^verbatim>\<open>startRun\<close>, \<^verbatim>\<open>startCycle\<close>, the
  acquisition of \<open>Testcase\<close> and \<^verbatim>\<open>testCase.fail()\<close>.
\<close>

definition ctx_Testcase_failed :: TrackerContext where
  "ctx_Testcase_failed =
     \<lparr>heap =
        [\<lparr>variant = SectionTracker, m_name = ''{root}'', m_parent = None,
          m_children = [1], m_runState = NeedsAnotherRun\<rparr>,
         \<lparr>variant = SectionTracker, m_name = ''Testcase'', m_parent = Some 0,
          m_children = [], m_runState = Failed\<rparr>],
      m_rootPart = Some 0, m_currentPart = Some 0, ctx_runState = CompletedCycle\<rparr>"

text \<open>
  The generator of the test case with a section inside: after \<open>open_S1\<close>, \<open>G1\<close> of size 2
  (address 3) and the section \<open>S2\<close> inside it (address 4) are acquired, and \<open>S2\<close> is
  closed.  \<open>G1\<close> is current, \<open>ExecutingChildren\<close>, and its last child has ended.
\<close>

definition inner_section :: "api_call list" where
  "inner_section = open_S1 @ [AcquireIndex ''G1'' 2, AcquireSection ''S2'']"

definition ctx_inner_closed :: TrackerContext where
  "ctx_inner_closed =
     \<lparr>heap =
        [\<lparr>variant = SectionTracker, m_name = ''{root}'', m_parent = None,
          m_children = [1], m_runState = ExecutingChildren\<rparr>,
         \<lparr>variant = SectionTracker, m_name = ''Testcase'', m_parent = Some 0,
          m_children = [2], m_runState = ExecutingChildren\<rparr>,
         \<lparr>variant = SectionTracker, m_name = ''S1'', m_parent = Some 1,
          m_children = [3], m_runState = ExecutingChildren\<rparr>,
         \<lparr>variant = IndexTracker 2 0, m_name = ''G1'', m_parent = Some 2,
          m_children = [4], m_runState = ExecutingChildren\<rparr>,
         \<lparr>variant = SectionTracker, m_name = ''S2'', m_parent = Some 3,
          m_children = [], m_runState = CompletedSuccessfully\<rparr>],
      m_rootPart = Some 0, m_currentPart = Some 3, ctx_runState = CompletedCycle\<rparr>"


text \<open>The same with \<^verbatim>\<open>s2.fail()\<close> in place of \<^verbatim>\<open>s2.close()\<close>: \<open>G1\<close> is \<open>NeedsAnotherRun\<close>.\<close>

definition ctx_inner_failed :: TrackerContext where
  "ctx_inner_failed =
     \<lparr>heap =
        [\<lparr>variant = SectionTracker, m_name = ''{root}'', m_parent = None,
          m_children = [1], m_runState = ExecutingChildren\<rparr>,
         \<lparr>variant = SectionTracker, m_name = ''Testcase'', m_parent = Some 0,
          m_children = [2], m_runState = ExecutingChildren\<rparr>,
         \<lparr>variant = SectionTracker, m_name = ''S1'', m_parent = Some 1,
          m_children = [3], m_runState = ExecutingChildren\<rparr>,
         \<lparr>variant = IndexTracker 2 0, m_name = ''G1'', m_parent = Some 2,
          m_children = [4], m_runState = NeedsAnotherRun\<rparr>,
         \<lparr>variant = SectionTracker, m_name = ''S2'', m_parent = Some 3,
          m_children = [], m_runState = Failed\<rparr>],
      m_rootPart = Some 0, m_currentPart = Some 3, ctx_runState = CompletedCycle\<rparr>"


section \<open>The generator of the test case with its inner section, cycle by cycle\<close>




section \<open>Basic facts\<close>

subsection \<open>The store and the end of a call\<close>

lemma deref_fields [simp]:
  "deref (c\<lparr>m_currentPart := x\<rparr>) a = deref c a"
  "deref (c\<lparr>ctx_runState := y\<rparr>) a = deref c a"
  "deref (c\<lparr>m_rootPart := z\<rparr>) a = deref c a"
  by (simp_all add: deref_def)

lemma deref_store:
  "deref (store c a t) b = (if b = a \<and> a < length (heap c) then Some t else deref c b)"
  by (auto simp: deref_def store_def)

lemma deref_Some_length: "deref c a = Some t \<Longrightarrow> a < length (heap c)"
  by (auto simp: deref_def split: if_splits)

lemma store_fields [simp]:
  "m_currentPart (store c a t) = m_currentPart c"
  "m_rootPart (store c a t) = m_rootPart c"
  "ctx_runState (store c a t) = ctx_runState c"
  "length (heap (store c a t)) = length (heap c)"
  by (simp_all add: store_def)

lemma store_same: "deref c a = Some t \<Longrightarrow> store c a t = c"
  by (auto simp: deref_def store_def split: if_splits)

lemma drain_current: "m_currentPart c = Some this \<Longrightarrow> drain fuel c this = Some (Inr c)"
  by (cases fuel) (simp_all add: drain.simps)

lemma PartTrackerBase_close_current:
  "m_currentPart c = Some this \<Longrightarrow>
   PartTrackerBase_close fuel c this = Some (PartTrackerBase_close_switch c this)"
  by (simp add: drain_current PartTrackerBase_close.simps)

lemma close_is_close_current:
  "m_currentPart c = Some this \<Longrightarrow> close fuel c this = Some (close_current c this)"
  by (simp add: drain_current close_current_def close.simps IndexTracker_close.simps
      PartTrackerBase_close.simps split: option.splits variant.splits sum.splits)

lemma leave_Inr:
  "leave c this = Inr c' \<longleftrightarrow>
     (\<exists>t p. deref c this = Some t \<and> m_parent t = Some p \<and>
        c' = c\<lparr>m_currentPart := Some p, ctx_runState := CompletedCycle\<rparr>)"
  by (auto simp: leave_def moveToParent_def setCurrentPart_def completeCycle_def
      split: option.splits)

lemma leave_heap: "leave c this = Inr c' \<Longrightarrow> heap c' = heap c"
  by (auto simp: leave_Inr)

lemma switch_other:
  "PartTrackerBase_close_switch c this = Inr c' \<Longrightarrow> b \<noteq> this \<Longrightarrow> deref c' b = deref c b"
  by (auto simp: PartTrackerBase_close_switch_def leave_Inr deref_store
      split: option.splits RunState.splits if_splits)

lemma after_other:
  "IndexTracker_close_after c this = Inr c' \<Longrightarrow> b \<noteq> this \<Longrightarrow> deref c' b = deref c b"
  by (auto simp: IndexTracker_close_after_def deref_store
      split: option.splits variant.splits if_splits)

lemma close_current_other:
  "close_current c this = Inr c' \<Longrightarrow> b \<noteq> this \<Longrightarrow> deref c' b = deref c b"
  by (auto simp: close_current_def switch_other after_other
      split: option.splits variant.splits sum.splits)

lemma drain_Suc_step:
  "m_currentPart c = Some cur \<Longrightarrow> cur \<noteq> this \<Longrightarrow>
   drain (Suc fuel) c this =
     (case close_current c cur of Inl e \<Rightarrow> Some (Inl e) | Inr c' \<Rightarrow> drain fuel c' this)"
  by (simp add: close_is_close_current drain.simps)

lemma drain_result:
  "drain fuel c this = Some (Inr c1) \<Longrightarrow>
   m_currentPart c1 = Some this \<and> deref c1 this = deref c this"
proof (induction fuel arbitrary: c)
  case 0
  then show ?case by (auto simp: drain.simps split: option.splits if_splits)
next
  case (Suc fuel)
  show ?case
  proof (cases "m_currentPart c")
    case None
    with Suc.prems show ?thesis by (simp add: drain.simps)
  next
    case (Some cur)
    show ?thesis
    proof (cases "cur = this")
      case True
      with Some Suc.prems show ?thesis by (simp add: drain.simps)
    next
      case False
      with Some Suc.prems obtain c' where
        c': "close_current c cur = Inr c'" and d: "drain fuel c' this = Some (Inr c1)"
        by (auto simp: drain_Suc_step split: sum.splits)
      from Suc.IH [OF d] close_current_other [OF c', of this] False show ?thesis by simp
    qed
  qed
qed

lemma leave_parent:
  "deref c this = Some t \<Longrightarrow> m_parent t = Some p \<Longrightarrow>
   leave c this = Inr (c\<lparr>m_currentPart := Some p, ctx_runState := CompletedCycle\<rparr>)"
  by (simp add: leave_def moveToParent_def setCurrentPart_def completeCycle_def)

lemma leave_no_parent:
  "deref c this = Some t \<Longrightarrow> m_parent t = None \<Longrightarrow> leave c this = Inl AssertionFailed"
  by (simp add: leave_def moveToParent_def)

lemma leave_store_parent:
  "deref c this = Some t \<Longrightarrow> m_parent t = Some p \<Longrightarrow>
   leave (store c this (t\<lparr>m_runState := s\<rparr>)) this =
     Inr ((store c this (t\<lparr>m_runState := s\<rparr>))
            \<lparr>m_currentPart := Some p, ctx_runState := CompletedCycle\<rparr>)"
  by (rule leave_parent [where t = "t\<lparr>m_runState := s\<rparr>"])
     (auto simp: deref_store dest: deref_Some_length)

lemma leave_store_no_parent:
  "deref c this = Some t \<Longrightarrow> m_parent t = None \<Longrightarrow>
   leave (store c this (t\<lparr>m_runState := s\<rparr>)) this = Inl AssertionFailed"
  by (rule leave_no_parent [where t = "t\<lparr>m_runState := s\<rparr>"])
     (auto simp: deref_store dest: deref_Some_length)

lemma PartTrackerBase_close_drained:
  "drain fuel c this = Some (Inr c1) \<Longrightarrow>
   PartTrackerBase_close fuel c this = Some (PartTrackerBase_close_switch c1 this)"
  by (simp add: PartTrackerBase_close.simps)


lemma after_frame:
  "IndexTracker_close_after c this = Inr c' \<Longrightarrow>
   ctx_runState c' = ctx_runState c \<and> m_currentPart c' = m_currentPart c \<and>
   m_rootPart c' = m_rootPart c"
  by (auto simp: IndexTracker_close_after_def split: option.splits variant.splits if_splits)

lemma close_returns:
  assumes "close fuel c this = Some (Inr c')"
  shows "\<exists>c1 c2. drain fuel c this = Some (Inr c1) \<and>
           PartTrackerBase_close_switch c1 this = Inr c2 \<and>
           (c' = c2 \<or> IndexTracker_close_after c2 this = Inr c')"
  using assms
  by (auto simp: close.simps IndexTracker_close.simps PartTrackerBase_close.simps
      split: option.splits variant.splits sum.splits)

lemma switch_not_ended:
  assumes "PartTrackerBase_close_switch c this = Inr c'"
    and "deref c this = Some t" and "\<not> hasEnded t"
  shows "\<exists>p. m_parent t = Some p \<and> m_currentPart c' = Some p \<and> ctx_runState c' = CompletedCycle"
  using assms
  by (auto simp: PartTrackerBase_close_switch_def hasEnded_def leave_Inr deref_store
      split: RunState.splits if_splits option.splits)

lemma close_not_ended:
  assumes "close fuel c this = Some (Inr c')" and "deref c this = Some t" and "\<not> hasEnded t"
  shows "\<exists>p. m_parent t = Some p \<and> m_currentPart c' = Some p \<and> ctx_runState c' = CompletedCycle"
proof -
  from close_returns [OF assms(1)] obtain c1 c2 where
    d: "drain fuel c this = Some (Inr c1)" and
    s: "PartTrackerBase_close_switch c1 this = Inr c2" and
    a: "c' = c2 \<or> IndexTracker_close_after c2 this = Inr c'"
    by blast
  from drain_result [OF d] assms(2) have "deref c1 this = Some t" by simp
  from switch_not_ended [OF s this assms(3)] obtain p where
    "m_parent t = Some p" "m_currentPart c2 = Some p" "ctx_runState c2 = CompletedCycle"
    by blast
  with a after_frame [of c2 this c'] show ?thesis by auto
qed

lemma fail_Inr:
  assumes "fail c this = Inr c'" and "deref c this = Some t"
  shows "\<exists>p. m_parent t = Some p \<and> m_currentPart c' = Some p \<and> ctx_runState c' = CompletedCycle"
  using assms
  by (auto simp: fail_def markAsNeedingAnotherRun_def leave_Inr deref_store
      dest: deref_Some_length split: option.splits sum.splits if_splits)

lemma fail_no_parent:
  "deref c this = Some t \<Longrightarrow> m_parent t = None \<Longrightarrow> fail c this = Inl AssertionFailed"
  by (simp add: fail_def leave_store_no_parent)

lemma switch_no_parent:
  assumes "deref c this = Some t" and "m_parent t = None"
  shows "m_runState t = Executing \<or> m_runState t = NeedsAnotherRun \<or>
         m_runState t = ExecutingChildren \<and>
           (m_children t = [] \<or> deref c (last (m_children t)) \<noteq> None) \<Longrightarrow>
         PartTrackerBase_close_switch c this = Inl AssertionFailed"
  using assms
  by (auto simp: PartTrackerBase_close_switch_def leave_store_no_parent leave_no_parent)

lemma close_drained:
  assumes "drain fuel c this = Some (Inr c1)" and "PartTrackerBase_close_switch c1 this = Inl e"
    and "deref c this \<noteq> None"
  shows "close fuel c this = Some (Inl e)"
  using assms
  by (auto simp: close.simps IndexTracker_close.simps PartTrackerBase_close.simps
      split: variant.splits)

lemma close_eq:
  "close fuel c this =
     (case deref c this of
        None \<Rightarrow> Some (Inl NullDereference)
      | Some t \<Rightarrow>
          (case drain fuel c this of
             None \<Rightarrow> None
           | Some (Inl e) \<Rightarrow> Some (Inl e)
           | Some (Inr c1) \<Rightarrow> Some (close_current c1 this)))"
proof (cases "deref c this")
  case None
  then show ?thesis by (simp add: close.simps)
next
  case (Some t)
  show ?thesis
  proof (cases "drain fuel c this")
    case None
    with Some show ?thesis
      by (simp add: close.simps IndexTracker_close.simps PartTrackerBase_close.simps
          split: variant.splits)
  next
    case (Some r)
    note r = this
    show ?thesis
    proof (cases r)
      case (Inl e)
      with r \<open>deref c this = Some t\<close> show ?thesis
        by (simp add: close.simps IndexTracker_close.simps PartTrackerBase_close.simps
            split: variant.splits)
    next
      case (Inr c1)
      with r drain_result [of fuel c this c1] have "deref c1 this = deref c this" by simp
      with Inr r \<open>deref c this = Some t\<close> show ?thesis
        by (simp add: close.simps IndexTracker_close.simps PartTrackerBase_close.simps
            close_current_def split: variant.splits sum.splits)
    qed
  qed
qed

lemma fail_returns:
  assumes "deref c this = Some t" and "m_parent t = Some p" and "deref c p \<noteq> None"
  shows "\<exists>c'. fail c this = Inr c'"
  using assms
  by (auto simp: fail_def markAsNeedingAnotherRun_def leave_def moveToParent_def deref_store
      dest: deref_Some_length split: option.splits)

subsection \<open>The two acquire functions, by what the lookup finds\<close>

lemma SectionTracker_acquire_found:
  assumes "m_currentPart c = Some cur" and "deref c cur = Some ct"
    and "findChild c ct name = Some part" and "deref c part = Some pt"
    and "variant pt = SectionTracker"
  shows "SectionTracker_acquire c name =
    (if \<not> completedCycle c \<and> \<not> hasEnded pt then
       (case open_part c part of Inl e \<Rightarrow> Inl e | Inr c3 \<Rightarrow> Inr (c3, part))
     else Inr (c, part))"
  using assms by (simp add: SectionTracker_acquire_def)

lemma deref_with_child_new:
  "deref c cur = Some ct \<Longrightarrow> deref (with_child c cur ct new) (length (heap c)) = Some new"
  by (auto simp: deref_def with_child_def nth_list_update nth_append split: if_splits)

lemma alloc_addChild:
  "deref c cur = Some ct \<Longrightarrow>
   addChild (fst (alloc c new)) cur (snd (alloc c new)) = Inr (with_child c cur ct new)"
  by (auto simp: alloc_def addChild_def deref_def store_def with_child_def nth_append
      split: if_splits)

lemma SectionTracker_acquire_new:
  assumes "m_currentPart c = Some cur" and "deref c cur = Some ct"
    and "findChild c ct name = None"
  shows "SectionTracker_acquire c name =
    (if \<not> completedCycle c then
       (case open_part (with_child c cur ct (SectionTracker_new name (Some cur)))
               (length (heap c)) of
          Inl e \<Rightarrow> Inl e
        | Inr c3 \<Rightarrow> Inr (c3, length (heap c)))
     else Inr (with_child c cur ct (SectionTracker_new name (Some cur)), length (heap c)))"
proof -
  let ?new = "SectionTracker_new name (Some cur)"
  have a: "alloc c ?new = (fst (alloc c ?new), length (heap c))"
    by (simp add: alloc_def)
  have h: "\<not> hasEnded ?new"
    by (simp add: hasEnded_def SectionTracker_new_def)
  have cc: "completedCycle (with_child c cur ct ?new) = completedCycle c"
    by (simp add: completedCycle_def with_child_def)
  from alloc_addChild [OF assms(2), of ?new]
  have b: "addChild (fst (alloc c ?new)) cur (length (heap c)) = Inr (with_child c cur ct ?new)"
    by (simp add: alloc_def)
  show ?thesis
    unfolding SectionTracker_acquire_def
    by (simp add: assms a [unfolded alloc_def, simplified] alloc_def b [unfolded alloc_def, simplified]
        deref_with_child_new [OF assms(2)] h cc)
qed

lemma IndexTracker_acquire_found:
  assumes "m_currentPart c = Some cur" and "deref c cur = Some ct"
    and "findChild c ct name = Some part" and "deref c part = Some pt"
    and "variant pt = IndexTracker sz0 ix"
  shows "IndexTracker_acquire c name sz =
    (if \<not> completedCycle c \<and> \<not> hasEnded pt then
       (case (if m_runState pt \<noteq> ExecutingChildren then moveNext c part else Inr c) of
          Inl e \<Rightarrow> Inl e
        | Inr c3 \<Rightarrow>
            (case open_part c3 part of Inl e \<Rightarrow> Inl e | Inr c4 \<Rightarrow> Inr (c4, part)))
     else Inr (c, part))"
  using assms by (simp add: IndexTracker_acquire_def)

lemma IndexTracker_acquire_new:
  assumes "m_currentPart c = Some cur" and "deref c cur = Some ct"
    and "findChild c ct name = None"
  shows "IndexTracker_acquire c name sz =
    (if \<not> completedCycle c then
       (case moveNext (with_child c cur ct (IndexTracker_new name (Some cur) sz))
               (length (heap c)) of
          Inl e \<Rightarrow> Inl e
        | Inr c3 \<Rightarrow>
            (case open_part c3 (length (heap c)) of
               Inl e \<Rightarrow> Inl e
             | Inr c4 \<Rightarrow> Inr (c4, length (heap c))))
     else Inr (with_child c cur ct (IndexTracker_new name (Some cur) sz), length (heap c)))"
proof -
  let ?new = "IndexTracker_new name (Some cur) sz"
  have h: "\<not> hasEnded ?new" "m_runState ?new \<noteq> ExecutingChildren"
    by (simp_all add: hasEnded_def IndexTracker_new_def)
  have cc: "completedCycle (with_child c cur ct ?new) = completedCycle c"
    by (simp add: completedCycle_def with_child_def)
  from alloc_addChild [OF assms(2), of ?new]
  have b: "addChild (c\<lparr>heap := heap c @ [?new]\<rparr>) cur (length (heap c))
             = Inr (with_child c cur ct ?new)"
    by (simp add: alloc_def)
  show ?thesis
    unfolding IndexTracker_acquire_def
    by (simp add: assms alloc_def b deref_with_child_new [OF assms(2)] h cc)
qed

subsection \<open>The switch of close\<close>

lemma store_unchanged:
  "deref c this = Some t \<Longrightarrow> m_runState t = s \<Longrightarrow> store c this (t\<lparr>m_runState := s\<rparr>) = c"
  by (auto simp: store_same)

lemma switch_Inr:
  assumes "PartTrackerBase_close_switch c this = Inr c'" and "deref c this = Some t"
  shows "hasEnded t \<and> c' = c \<or>
    (\<exists>s p. \<not> hasEnded t \<and> m_parent t = Some p \<and> s \<noteq> NotStarted \<and> s \<noteq> Failed \<and>
       c' = (store c this (t\<lparr>m_runState := s\<rparr>))
              \<lparr>m_currentPart := Some p, ctx_runState := CompletedCycle\<rparr>)"
proof (cases "m_parent t")
  case None
  with assms show ?thesis
    by (cases "m_runState t")
      (simp_all add: PartTrackerBase_close_switch_def leave_store_no_parent leave_no_parent
        hasEnded_def split: option.splits if_splits)
next
  case (Some p)
  show ?thesis
  proof (cases "m_runState t")
    case NotStarted
    with assms show ?thesis by (simp add: PartTrackerBase_close_switch_def)
  next
    case Executing
    with assms Some have
      "c' = (store c this (t\<lparr>m_runState := CompletedSuccessfully\<rparr>))
              \<lparr>m_currentPart := Some p, ctx_runState := CompletedCycle\<rparr>"
      by (simp add: PartTrackerBase_close_switch_def leave_store_parent)
    with Executing Some show ?thesis by (auto simp: hasEnded_def)
  next
    case ExecutingChildren
    with assms Some have
      "c' = (store c this (t\<lparr>m_runState := CompletedSuccessfully\<rparr>))
              \<lparr>m_currentPart := Some p, ctx_runState := CompletedCycle\<rparr> \<or>
       c' = (store c this (t\<lparr>m_runState := ExecutingChildren\<rparr>))
              \<lparr>m_currentPart := Some p, ctx_runState := CompletedCycle\<rparr>"
      by (simp add: PartTrackerBase_close_switch_def leave_store_parent leave_parent
          store_unchanged split: option.splits if_splits)
    with ExecutingChildren Some show ?thesis by (auto simp: hasEnded_def)
  next
    case NeedsAnotherRun
    with assms Some have
      "c' = (store c this (t\<lparr>m_runState := Executing\<rparr>))
              \<lparr>m_currentPart := Some p, ctx_runState := CompletedCycle\<rparr>"
      by (simp add: PartTrackerBase_close_switch_def leave_store_parent)
    with NeedsAnotherRun Some show ?thesis by (auto simp: hasEnded_def)
  next
    case CompletedSuccessfully
    with assms show ?thesis by (simp add: PartTrackerBase_close_switch_def hasEnded_def)
  next
    case Failed
    with assms show ?thesis by (simp add: PartTrackerBase_close_switch_def hasEnded_def)
  qed
qed

lemma switch_heap:
  assumes "PartTrackerBase_close_switch c this = Inr c'" and "deref c this = Some t"
  shows "\<exists>s. heap c' = (heap c)[this := t\<lparr>m_runState := s\<rparr>] \<and>
    deref c' this = Some (t\<lparr>m_runState := s\<rparr>)"
  using switch_Inr [OF assms] assms(2)
proof (elim disjE conjE exE)
  assume "c' = c"
  with assms(2) have "heap c' = (heap c)[this := t\<lparr>m_runState := m_runState t\<rparr>]"
    and "deref c' this = Some (t\<lparr>m_runState := m_runState t\<rparr>)"
    by (auto simp: deref_def split: if_splits)
  then show ?thesis by blast
next
  fix s p
  assume "c' = (store c this (t\<lparr>m_runState := s\<rparr>))
                 \<lparr>m_currentPart := Some p, ctx_runState := CompletedCycle\<rparr>"
  with assms(2) have "heap c' = (heap c)[this := t\<lparr>m_runState := s\<rparr>]"
    and "deref c' this = Some (t\<lparr>m_runState := s\<rparr>)"
    by (auto simp: store_def deref_def split: if_splits)
  then show ?thesis by blast
qed

lemma after_Inr:
  assumes "IndexTracker_close_after c this = Inr c'" and "deref c this = Some t"
  shows "exhausted_if_completed t \<and> c' = c \<or> c' = store c this (t\<lparr>m_runState := Executing\<rparr>)"
  using assms
  by (cases "variant t")
    (auto simp: IndexTracker_close_after_def exhausted_if_completed_def split: if_splits)

lemma with_child_fields [simp]:
  "m_currentPart (with_child c cur ct new) = m_currentPart c"
  "m_rootPart (with_child c cur ct new) = m_rootPart c"
  "ctx_runState (with_child c cur ct new) = ctx_runState c"
  "length (heap (with_child c cur ct new)) = Suc (length (heap c))"
  by (simp_all add: with_child_def)

lemma deref_with_child_old:
  "deref c cur = Some ct \<Longrightarrow> deref c a = Some t \<Longrightarrow>
   deref (with_child c cur ct new) a =
     Some (if a = cur then ct\<lparr>m_children := m_children ct @ [length (heap c)]\<rparr> else t)"
  by (auto simp: deref_def with_child_def nth_list_update nth_append split: if_splits)

subsection \<open>Opening a tracker changes run-states only\<close>

lemma openChild_frame:
  "openChild c this = Inr c' \<Longrightarrow> deref c b = Some t \<Longrightarrow>
   \<exists>s. deref c' b = Some (t\<lparr>m_runState := s\<rparr>)"
proof (induction c this arbitrary: t rule: openChild.induct)
  case (1 c this)
  from "1.prems"(1) obtain u where u: "deref c this = Some u"
    by (cases "deref c this") (auto simp: openChild.simps [of c this])
  show ?case
  proof (cases "m_runState u = ExecutingChildren")
    case True
    with u "1.prems" have "c' = c" by (simp add: openChild.simps [of c this])
    with "1.prems"(2) have "deref c' b = Some (t\<lparr>m_runState := m_runState t\<rparr>)" by simp
    then show ?thesis by blast
  next
    case False
    let ?c = "store c this (u\<lparr>m_runState := ExecutingChildren\<rparr>)"
    from u "1.prems"(2) obtain s0 where s0: "deref ?c b = Some (t\<lparr>m_runState := s0\<rparr>)"
    proof (cases "b = this")
      case True
      with u "1.prems"(2) have "deref ?c b = Some (t\<lparr>m_runState := ExecutingChildren\<rparr>)"
        by (auto simp: deref_store dest: deref_Some_length)
      then show ?thesis by (rule that)
    next
      case False
      with "1.prems"(2) have "deref ?c b = Some (t\<lparr>m_runState := m_runState t\<rparr>)"
        by (simp add: deref_store)
      then show ?thesis by (rule that)
    qed
    show ?thesis
    proof (cases "m_parent u")
      case None
      with u False "1.prems"(1) have "c' = ?c" by (simp add: openChild.simps [of c this])
      with s0 show ?thesis by blast
    next
      case (Some p)
      with u False "1.prems"(1) have "openChild ?c p = Inr c'"
        by (simp add: openChild.simps [of c this])
      from "1.IH" [OF u False Some this s0] show ?thesis by auto
    qed
  qed
qed

lemma openChild_error: "openChild c this = Inl e \<Longrightarrow> e = NullDereference"
proof (induction c this rule: openChild.induct)
  case (1 c this)
  show ?case
  proof (cases "deref c this")
    case None
    with "1.prems" show ?thesis by (simp add: openChild.simps [of c this])
  next
    case (Some u)
    show ?thesis
    proof (cases "m_runState u = ExecutingChildren")
      case True
      with Some "1.prems" show ?thesis by (simp add: openChild.simps [of c this])
    next
      case False
      show ?thesis
      proof (cases "m_parent u")
        case None
        with Some False "1.prems" show ?thesis by (simp add: openChild.simps [of c this])
      next
        case (Some p)
        with \<open>deref c this = Some u\<close> False "1.prems"
        have "openChild (store c this (u\<lparr>m_runState := ExecutingChildren\<rparr>)) p = Inl e"
          by (simp add: openChild.simps [of c this])
        from "1.IH" [OF \<open>deref c this = Some u\<close> False Some this] show ?thesis .
      qed
    qed
  qed
qed

lemma open_part_frame:
  assumes "open_part c this = Inr c'" and "deref c b = Some t"
  shows "\<exists>s. deref c' b = Some (t\<lparr>m_runState := s\<rparr>)"
proof -
  from assms(1) obtain u where u: "deref c this = Some u"
    by (auto simp: open_part_def split: option.splits)
  let ?c = "moveToThis (store c this (u\<lparr>m_runState := Executing\<rparr>)) this"
  from u assms(2) obtain s0 where s0: "deref ?c b = Some (t\<lparr>m_runState := s0\<rparr>)"
  proof (cases "b = this")
    case True
    with u assms(2) have "deref ?c b = Some (t\<lparr>m_runState := Executing\<rparr>)"
      by (auto simp: deref_store moveToThis_def setCurrentPart_def dest: deref_Some_length)
    then show ?thesis by (rule that)
  next
    case False
    with assms(2) have "deref ?c b = Some (t\<lparr>m_runState := m_runState t\<rparr>)"
      by (simp add: deref_store moveToThis_def setCurrentPart_def)
    then show ?thesis by (rule that)
  qed
  show ?thesis
  proof (cases "m_parent u")
    case None
    with u assms(1) have "c' = ?c" by (simp add: open_part_def)
    with s0 show ?thesis by blast
  next
    case (Some p)
    with u assms(1) have "openChild ?c p = Inr c'" by (simp add: open_part_def)
    from openChild_frame [OF this s0] show ?thesis by auto
  qed
qed

lemma open_part_error: "open_part c this = Inl e \<Longrightarrow> e = NullDereference"
  by (auto simp: open_part_def split: option.splits dest: openChild_error)

subsection \<open>Acquiring an index tracker that exists\<close>

lemma moveNext_Index:
  "deref c this = Some t \<Longrightarrow> variant t = IndexTracker sz ix \<Longrightarrow>
   moveNext c this = Inr (store c this (t\<lparr>variant := IndexTracker sz (ix + 1), m_children := []\<rparr>))"
  by (simp add: moveNext_def)

lemma IndexTracker_acquire_found_cases [consumes 5, case_names skipped reopened advanced]:
  assumes "m_currentPart c = Some cur" and "deref c cur = Some ct"
    and "findChild c ct name = Some part" and "deref c part = Some pt"
    and "variant pt = IndexTracker sz0 ix"
  obtains
    (skipped) "completedCycle c \<or> hasEnded pt"
      "IndexTracker_acquire c name sz = Inr (c, part)"
  | (reopened) "\<not> completedCycle c" "\<not> hasEnded pt" "m_runState pt = ExecutingChildren"
      "IndexTracker_acquire c name sz =
         (case open_part c part of Inl e \<Rightarrow> Inl e | Inr c4 \<Rightarrow> Inr (c4, part))"
  | (advanced) "\<not> completedCycle c" "\<not> hasEnded pt" "m_runState pt \<noteq> ExecutingChildren"
      "IndexTracker_acquire c name sz =
         (case open_part
                 (store c part (pt\<lparr>variant := IndexTracker sz0 (ix + 1), m_children := []\<rparr>))
                 part of
            Inl e \<Rightarrow> Inl e
          | Inr c4 \<Rightarrow> Inr (c4, part))"
proof -
  note f = IndexTracker_acquire_found [OF assms, of sz]
  note mn = moveNext_Index [OF assms(4,5)]
  show thesis
  proof (cases "completedCycle c \<or> hasEnded pt")
    case True
    with f have "IndexTracker_acquire c name sz = Inr (c, part)" by auto
    with True show thesis by (rule skipped)
  next
    case False
    show thesis
    proof (cases "m_runState pt = ExecutingChildren")
      case True
      with False f have "IndexTracker_acquire c name sz =
         (case open_part c part of Inl e \<Rightarrow> Inl e | Inr c4 \<Rightarrow> Inr (c4, part))"
        by simp
      with False True show thesis by (intro reopened) simp_all
    next
      case ne: False
      with False f mn have "IndexTracker_acquire c name sz =
         (case open_part
                 (store c part (pt\<lparr>variant := IndexTracker sz0 (ix + 1), m_children := []\<rparr>))
                 part of
            Inl e \<Rightarrow> Inl e
          | Inr c4 \<Rightarrow> Inr (c4, part))"
        by simp
      with False ne show thesis by (intro advanced) simp_all
    qed
  qed
qed


subsection \<open>The contexts of the test case are reached by its calls\<close>

lemma run_open_S1: "run 0 open_S1 TrackerContext_new = Some (Inr ctx_S1_open)"
  by code_simp

lemma run_S1_closed:
  "run 0 (open_S1 @ [Close 2]) TrackerContext_new = Some (Inr ctx_S1_closed)"
  by code_simp

lemma run_Testcase_closed:
  "run 0 (open_S1 @ [Close 2, Close 1]) TrackerContext_new = Some (Inr ctx_Testcase_closed)"
  by code_simp

lemma run_S1_failed:
  "run 0 (open_S1 @ [Fail 2]) TrackerContext_new = Some (Inr ctx_S1_failed)"
  by code_simp

lemma run_Testcase_recovered:
  "run 0 (open_S1 @ [Fail 2, Close 1]) TrackerContext_new = Some (Inr ctx_Testcase_recovered)"
  by code_simp

lemma run_S2_seen:
  "run 0 (open_S1 @ [Close 2, AcquireSection ''S2'']) TrackerContext_new
     = Some (Inr ctx_S2_seen)"
  by code_simp

lemma run_inside_failed:
  "run 0 nested_failures TrackerContext_new = Some (Inr ctx_inside_failed)"
  by code_simp

lemma run_current_failed:
  "run 0 (nested_failures @ [Close 3]) TrackerContext_new = Some (Inr ctx_current_failed)"
  by code_simp

lemma run_second_generation:
  "run 1 second_generation TrackerContext_new = Some (Inr ctx_second_generation)"
  by code_simp


lemma run_two_sections:
  "run 0 two_sections_in_generator TrackerContext_new = Some (Inr ctx_two_sections)"
  by code_simp

lemma reachableI: "run fuel xs TrackerContext_new = Some (Inr c) \<Longrightarrow> reachable c"
  unfolding reachable_def by blast

lemma run_reentered: "run 0 reenter TrackerContext_new = Some (Inr ctx_reentered)"
  by code_simp

lemma run_reentered_after_failure:
  "run 0 reenter_after_failure TrackerContext_new = Some (Inr ctx_reentered_after_failure)"
  by code_simp


lemma run_two_sections_second_cycle:
  "run 1 (two_sections_in_generator @
       [Close 2, Close 1, StartCycle, AcquireSection ''Testcase'', AcquireIndex ''G1'' 2])
     TrackerContext_new = Some (Inr ctx_two_sections_second_cycle)"
  by code_simp

lemma run_G1_open:
  "run 0 (open_S1 @ [AcquireIndex ''G1'' 2]) TrackerContext_new = Some (Inr ctx_G1_open)"
  by code_simp

lemma run_S1_failed_S2_open:
  "run 0 (open_S1 @ [AcquireSection ''S2'', Fail 2]) TrackerContext_new
     = Some (Inr ctx_S1_failed_S2_open)"
  by code_simp

lemma run_S1_marked:
  "run 0 failure_below_failed TrackerContext_new = Some (Inr ctx_S1_marked)"
  by code_simp

lemma run_Testcase_failed:
  "run 0 [StartRun, StartCycle, AcquireSection ''Testcase'', Fail 1] TrackerContext_new
     = Some (Inr ctx_Testcase_failed)"
  by code_simp

lemma run_inner_closed:
  "run 0 (inner_section @ [Close 4]) TrackerContext_new = Some (Inr ctx_inner_closed)"
  by code_simp

lemma run_inner_failed:
  "run 0 (inner_section @ [Fail 4]) TrackerContext_new = Some (Inr ctx_inner_failed)"
  by code_simp

section \<open>The invariant holds in every reachable context\<close>

lemma exhausted_if_not_completed [simp]:
  "m_runState t \<noteq> CompletedSuccessfully \<Longrightarrow> exhausted_if_completed t"
  by (simp add: exhausted_if_completed_def split: variant.splits)

lemma exhausted_if_section [simp]:
  "variant t = SectionTracker \<Longrightarrow> exhausted_if_completed t"
  by (simp add: exhausted_if_completed_def)

lemma index_invariant_fields [simp]:
  "index_invariant (c\<lparr>m_currentPart := x\<rparr>) = index_invariant c"
  "index_invariant (c\<lparr>ctx_runState := y\<rparr>) = index_invariant c"
  "index_invariant (c\<lparr>m_rootPart := z\<rparr>) = index_invariant c"
  by (simp_all add: index_invariant_def)

lemma index_invariant_store:
  "index_invariant c \<Longrightarrow> exhausted_if_completed t \<Longrightarrow> index_invariant (store c a t)"
  unfolding index_invariant_def store_def list_all_iff
  using set_update_subset_insert [of "heap c" a t] by auto

lemma index_invariant_alloc:
  "index_invariant c \<Longrightarrow> exhausted_if_completed t \<Longrightarrow> alloc c t = (c', a) \<Longrightarrow>
   index_invariant c'"
  by (auto simp: index_invariant_def alloc_def)

lemma index_invariant_deref:
  "index_invariant c \<Longrightarrow> deref c a = Some t \<Longrightarrow> exhausted_if_completed t"
  by (auto simp: index_invariant_def deref_def list_all_length split: if_splits)

lemma index_invariant_openChild:
  "index_invariant c \<Longrightarrow> openChild c this = Inr c' \<Longrightarrow> index_invariant c'"
proof (induction c this rule: openChild.induct)
  case (1 c this)
  show ?case
  proof (cases "deref c this")
    case None
    with "1.prems" show ?thesis by (simp add: openChild.simps [of c this])
  next
    case (Some t)
    show ?thesis
    proof (cases "m_runState t = ExecutingChildren")
      case True
      with Some "1.prems" show ?thesis by (simp add: openChild.simps [of c this])
    next
      case False
      let ?c = "store c this (t\<lparr>m_runState := ExecutingChildren\<rparr>)"
      have i: "index_invariant ?c"
        using "1.prems"(1) by (rule index_invariant_store) simp
      show ?thesis
      proof (cases "m_parent t")
        case None
        with \<open>deref c this = Some t\<close> False "1.prems" i show ?thesis
          by (simp add: openChild.simps [of c this])
      next
        case (Some p)
        with \<open>deref c this = Some t\<close> False "1.prems" have "openChild ?c p = Inr c'"
          by (simp add: openChild.simps [of c this])
        with "1.IH" [OF \<open>deref c this = Some t\<close> False Some i] show ?thesis .
      qed
    qed
  qed
qed

lemma index_invariant_open_part:
  assumes "index_invariant c" and "open_part c this = Inr c'"
  shows "index_invariant c'"
proof -
  from assms(2) obtain t where t: "deref c this = Some t"
    by (auto simp: open_part_def split: option.splits)
  let ?c = "moveToThis (store c this (t\<lparr>m_runState := Executing\<rparr>)) this"
  have i: "index_invariant ?c"
    using assms(1) by (simp add: moveToThis_def setCurrentPart_def index_invariant_store)
  show ?thesis
  proof (cases "m_parent t")
    case None
    with t assms(2) i show ?thesis by (simp add: open_part_def)
  next
    case (Some p)
    with t assms(2) have "openChild ?c p = Inr c'" by (simp add: open_part_def)
    with i show ?thesis by (rule index_invariant_openChild)
  qed
qed

lemma exhausted_children [simp]:
  "exhausted_if_completed (t\<lparr>m_children := xs\<rparr>) = exhausted_if_completed t"
  by (simp add: exhausted_if_completed_def split: variant.splits)

lemma index_invariant_with_child:
  assumes "index_invariant c" and "deref c cur = Some ct" and "exhausted_if_completed new"
  shows "index_invariant (with_child c cur ct new)"
proof -
  let ?ct = "ct\<lparr>m_children := m_children ct @ [length (heap c)]\<rparr>"
  from assms(1,2) have "exhausted_if_completed ?ct"
    by (simp add: index_invariant_deref)
  moreover from assms(1,3) have "list_all exhausted_if_completed (heap c @ [new])"
    by (simp add: index_invariant_def)
  ultimately show ?thesis
    unfolding index_invariant_def with_child_def list_all_iff
    using set_update_subset_insert [of "heap c @ [new]" cur ?ct] by auto
qed

lemma index_invariant_moveNext:
  assumes "index_invariant c" and "moveNext c this = Inr c'"
  shows "index_invariant c'"
proof -
  from assms(2) obtain t sz ix where
    "c' = store c this (t\<lparr>variant := IndexTracker sz (ix + 1), m_children := []\<rparr>)"
    and t: "deref c this = Some t" "variant t = IndexTracker sz ix"
    by (auto simp: moveNext_def split: option.splits variant.splits)
  moreover from index_invariant_deref [OF assms(1) t(1)] t(2)
  have "exhausted_if_completed (t\<lparr>variant := IndexTracker sz (ix + 1), m_children := []\<rparr>)"
    by (auto simp: exhausted_if_completed_def)
  ultimately show ?thesis using assms(1) by (simp add: index_invariant_store)
qed

lemma index_invariant_fail:
  assumes "index_invariant c" and "fail c this = Inr c'"
  shows "index_invariant c'"
proof -
  from assms(2) obtain t where t: "deref c this = Some t"
    by (auto simp: fail_def split: option.splits)
  let ?c = "store c this (t\<lparr>m_runState := Failed\<rparr>)"
  have i: "index_invariant ?c"
    using assms(1) by (rule index_invariant_store) simp
  show ?thesis
  proof (cases "m_parent t")
    case None
    with t assms(2) show ?thesis by (simp add: fail_def leave_store_no_parent)
  next
    case (Some p)
    with t assms(2) obtain c2 where
      m: "markAsNeedingAnotherRun ?c p = Inr c2" and l: "leave c2 this = Inr c'"
      by (auto simp: fail_def split: sum.splits)
    from m obtain tp where "c2 = store ?c p (tp\<lparr>m_runState := NeedsAnotherRun\<rparr>)"
      by (auto simp: markAsNeedingAnotherRun_def split: option.splits)
    with i have "index_invariant c2" by (simp add: index_invariant_store)
    with l show ?thesis by (auto simp: leave_Inr)
  qed
qed

lemma index_invariant_SectionTracker_acquire:
  assumes i: "index_invariant c" and r: "SectionTracker_acquire c name = Inr (c', a)"
  shows "index_invariant c'"
proof -
  from r obtain cur ct where cur: "m_currentPart c = Some cur" "deref c cur = Some ct"
    by (auto simp: SectionTracker_acquire_def split: option.splits)
  show ?thesis
  proof (cases "findChild c ct name")
    case None
    have "index_invariant (with_child c cur ct (SectionTracker_new name (Some cur)))"
      using i cur(2) by (rule index_invariant_with_child) (simp add: SectionTracker_new_def)
    with r show ?thesis
      unfolding SectionTracker_acquire_new [OF cur None]
      by (auto split: if_splits sum.splits dest: index_invariant_open_part)
  next
    case (Some part)
    with r cur obtain pt where pt: "deref c part = Some pt" "variant pt = SectionTracker"
      by (auto simp: SectionTracker_acquire_def split: option.splits variant.splits)
    from r i show ?thesis
      unfolding SectionTracker_acquire_found [OF cur Some pt]
      by (auto split: if_splits sum.splits dest: index_invariant_open_part)
  qed
qed

lemma index_invariant_IndexTracker_acquire:
  assumes i: "index_invariant c" and r: "IndexTracker_acquire c name sz = Inr (c', a)"
  shows "index_invariant c'"
proof -
  from r obtain cur ct where cur: "m_currentPart c = Some cur" "deref c cur = Some ct"
    by (auto simp: IndexTracker_acquire_def split: option.splits)
  show ?thesis
  proof (cases "findChild c ct name")
    case None
    have "index_invariant (with_child c cur ct (IndexTracker_new name (Some cur) sz))"
      using i cur(2) by (rule index_invariant_with_child) (simp add: IndexTracker_new_def)
    with r show ?thesis
      unfolding IndexTracker_acquire_new [OF cur None]
      by (auto split: if_splits sum.splits
          dest: index_invariant_open_part index_invariant_moveNext)
  next
    case (Some part)
    with r cur obtain pt sz0 ix where
      pt: "deref c part = Some pt" "variant pt = IndexTracker sz0 ix"
      by (auto simp: IndexTracker_acquire_def split: option.splits variant.splits)
    from r i show ?thesis
      unfolding IndexTracker_acquire_found [OF cur Some pt]
      by (auto split: if_splits sum.splits
          dest: index_invariant_open_part index_invariant_moveNext)
  qed
qed

lemma index_invariant_heap:
  "index_invariant c \<Longrightarrow> heap c' = (heap c)[a := t] \<Longrightarrow> exhausted_if_completed t \<Longrightarrow>
   index_invariant c'"
  unfolding index_invariant_def list_all_iff
  using set_update_subset_insert [of "heap c" a t] by auto

lemma index_invariant_close_current:
  assumes i: "index_invariant c" and r: "close_current c this = Inr c'"
  shows "index_invariant c'"
proof -
  from r obtain t where t: "deref c this = Some t"
    by (auto simp: close_current_def split: option.splits)
  show ?thesis
  proof (cases "variant t")
    case SectionTracker
    with r t have "PartTrackerBase_close_switch c this = Inr c'"
      by (simp add: close_current_def)
    from switch_heap [OF this t] obtain s where
      "heap c' = (heap c)[this := t\<lparr>m_runState := s\<rparr>]" by blast
    with i show ?thesis
      by (rule index_invariant_heap) (simp add: SectionTracker)
  next
    case (IndexTracker sz ix)
    with r t obtain c2 where
      s: "PartTrackerBase_close_switch c this = Inr c2" and
      a: "IndexTracker_close_after c2 this = Inr c'"
      by (auto simp: close_current_def split: sum.splits)
    from switch_heap [OF s t] obtain s where
      h: "heap c2 = (heap c)[this := t\<lparr>m_runState := s\<rparr>]" and
      d: "deref c2 this = Some (t\<lparr>m_runState := s\<rparr>)" by blast
    from after_Inr [OF a d] show ?thesis
    proof (elim disjE conjE)
      assume "exhausted_if_completed (t\<lparr>m_runState := s\<rparr>)" and "c' = c2"
      with i h show ?thesis by (auto intro: index_invariant_heap)
    next
      assume "c' = store c2 this (t\<lparr>m_runState := s, m_runState := Executing\<rparr>)"
      with h have "heap c' = (heap c)[this := t\<lparr>m_runState := Executing\<rparr>]"
        by (simp add: store_def)
      with i show ?thesis by (rule index_invariant_heap) simp
    qed
  qed
qed

lemma index_invariant_drain:
  "index_invariant c \<Longrightarrow> drain fuel c this = Some (Inr c1) \<Longrightarrow> index_invariant c1"
proof (induction fuel arbitrary: c)
  case 0
  then show ?case by (auto simp: drain.simps split: option.splits if_splits)
next
  case (Suc fuel)
  show ?case
  proof (cases "m_currentPart c = Some this")
    case True
    with Suc.prems show ?thesis by (simp add: drain_current)
  next
    case False
    with Suc.prems(2) obtain cur where cur: "m_currentPart c = Some cur" "cur \<noteq> this"
      by (cases "m_currentPart c") (auto simp: drain.simps)
    with Suc.prems(2) obtain c' where
      c': "close_current c cur = Inr c'" and d: "drain fuel c' this = Some (Inr c1)"
      by (auto simp: drain_Suc_step split: sum.splits)
    from Suc.IH [OF index_invariant_close_current [OF Suc.prems(1) c'] d] show ?thesis .
  qed
qed

lemma index_invariant_close:
  assumes "index_invariant c" and "close fuel c this = Some (Inr c')"
  shows "index_invariant c'"
proof -
  from assms(2) obtain c1 where
    d: "drain fuel c this = Some (Inr c1)" and r: "close_current c1 this = Inr c'"
    by (auto simp: close_eq split: option.splits sum.splits)
  from index_invariant_close_current [OF index_invariant_drain [OF assms(1) d] r]
  show ?thesis .
qed

lemma index_invariant_perform:
  assumes "index_invariant c" and "perform fuel x c = Some (Inr c')"
  shows "index_invariant c'"
proof (cases x)
  case StartRun
  with assms show ?thesis
    by (auto simp: startRun_def alloc_def index_invariant_def SectionTracker_new_def)
next
  case EndRun
  with assms show ?thesis by (auto simp: endRun_def index_invariant_def)
next
  case StartCycle
  with assms show ?thesis by (auto simp: startCycle_def index_invariant_def)
next
  case (AcquireSection name)
  with assms show ?thesis
    by (auto split: sum.splits dest: index_invariant_SectionTracker_acquire)
next
  case (AcquireIndex name sz)
  with assms show ?thesis
    by (auto split: sum.splits dest: index_invariant_IndexTracker_acquire)
next
  case (Close a)
  with assms show ?thesis by (auto dest: index_invariant_close)
next
  case (Fail a)
  with assms show ?thesis by (auto dest: index_invariant_fail)
qed

lemma index_invariant_run:
  "index_invariant c \<Longrightarrow> run fuel xs c = Some (Inr c') \<Longrightarrow> index_invariant c'"
proof (induction xs arbitrary: c)
  case Nil
  then show ?case by simp
next
  case (Cons x xs)
  from Cons.prems(2) obtain c1 where
    p: "perform fuel x c = Some (Inr c1)" and r: "run fuel xs c1 = Some (Inr c')"
    by (auto split: option.splits sum.splits)
  from Cons.IH [OF index_invariant_perform [OF Cons.prems(1) p] r] show ?case .
qed

lemma reachable_index_invariant:
  assumes "reachable c"
  shows "index_invariant c"
proof -
  from assms obtain fuel xs where r: "run fuel xs TrackerContext_new = Some (Inr c)"
    by (auto simp: reachable_def)
  have "index_invariant TrackerContext_new"
    by (simp add: index_invariant_def TrackerContext_new_def)
  from index_invariant_run [OF this r] show ?thesis .
qed

section \<open>Further facts about close\<close>

lemma switch_ended:
  "deref c this = Some t \<Longrightarrow> hasEnded t \<Longrightarrow> PartTrackerBase_close_switch c this = Inr c"
  by (auto simp: PartTrackerBase_close_switch_def hasEnded_def)

lemma close_current_ended:
  assumes "deref c this = Some t" and "hasEnded t" and "exhausted_if_completed t"
  shows "close_current c this = Inr c"
  using assms
  by (cases "variant t")
    (auto simp: close_current_def switch_ended IndexTracker_close_after_def
      exhausted_if_completed_def)

lemma close_current_NeedsAnotherRun:
  assumes "deref c this = Some t" and "m_runState t = NeedsAnotherRun"
  shows "close_current c this =
    (case m_parent t of
       None \<Rightarrow> Inl AssertionFailed
     | Some p \<Rightarrow>
         Inr ((store c this (t\<lparr>m_runState := Executing\<rparr>))
               \<lparr>m_currentPart := Some p, ctx_runState := CompletedCycle\<rparr>))"
proof (cases "m_parent t")
  case None
  with assms show ?thesis
    by (simp add: close_current_def PartTrackerBase_close_switch_def leave_store_no_parent
        split: variant.splits)
next
  case (Some p)
  let ?c = "(store c this (t\<lparr>m_runState := Executing\<rparr>))
              \<lparr>m_currentPart := Some p, ctx_runState := CompletedCycle\<rparr>"
  from assms Some have s: "PartTrackerBase_close_switch c this = Inr ?c"
    by (simp add: PartTrackerBase_close_switch_def leave_store_parent)
  have d: "deref (store c this (t\<lparr>m_runState := Executing\<rparr>)) this
             = Some (t\<lparr>m_runState := Executing\<rparr>)"
    using assms(1) by (auto simp: deref_store dest: deref_Some_length)
  have a: "IndexTracker_close_after ?c this = Inr ?c"
    by (simp add: IndexTracker_close_after_def d split: variant.splits)
  from assms(1) s a Some show ?thesis
    by (simp add: close_current_def split: variant.splits)
qed

lemma acquire_ended:
  assumes "m_currentPart d = Some cur" and "deref d cur = Some ct"
    and "findChild d ct name = Some this" and "deref d this = Some u" and "hasEnded u"
  shows "variant u = SectionTracker \<longrightarrow> SectionTracker_acquire d name = Inr (d, this)"
    and "variant u = IndexTracker sz0 ix \<longrightarrow> IndexTracker_acquire d name sz = Inr (d, this)"
  using assms
  by (simp_all add: SectionTracker_acquire_found IndexTracker_acquire_found)

lemma fail_parent:
  assumes "deref c this = Some t" and "m_parent t = Some p" and "deref c p = Some tp"
    and "p \<noteq> this"
  shows "fail c this =
    Inr ((store (store c this (t\<lparr>m_runState := Failed\<rparr>)) p (tp\<lparr>m_runState := NeedsAnotherRun\<rparr>))
          \<lparr>m_currentPart := Some p, ctx_runState := CompletedCycle\<rparr>)"
proof -
  let ?c1 = "store c this (t\<lparr>m_runState := Failed\<rparr>)"
  let ?c2 = "store ?c1 p (tp\<lparr>m_runState := NeedsAnotherRun\<rparr>)"
  have 1: "deref ?c1 p = Some tp"
    using assms(3,4) by (simp add: deref_store)
  then have 2: "markAsNeedingAnotherRun ?c1 p = Inr ?c2"
    by (simp add: markAsNeedingAnotherRun_def)
  have 3: "deref ?c2 this = Some (t\<lparr>m_runState := Failed\<rparr>)"
    using assms(1,4) by (auto simp: deref_store dest: deref_Some_length)
  have "leave ?c2 this = Inr (?c2\<lparr>m_currentPart := Some p, ctx_runState := CompletedCycle\<rparr>)"
    using 3 by (rule leave_parent) (simp add: assms(2))
  with assms(1,2) 2 show ?thesis by (simp add: fail_def)
qed

subsection \<open>The loop of close along a chain of open trackers\<close>

lemma switch_open_returns:
  assumes "deref c x = Some t" and "isOpen t" and "m_parent t = Some p"
    and "m_children t = [] \<or> deref c (last (m_children t)) \<noteq> None"
  shows "\<exists>c2. PartTrackerBase_close_switch c x = Inr c2"
proof (cases "m_runState t")
  case ExecutingChildren
  with assms show ?thesis
    by (auto simp: PartTrackerBase_close_switch_def leave_store_parent leave_parent)
qed (use assms in \<open>simp_all add: PartTrackerBase_close_switch_def leave_store_parent
      isOpen_def hasStarted_def hasEnded_def\<close>)

lemma after_returns:
  "deref c x = Some t \<Longrightarrow> \<exists>c'. IndexTracker_close_after c x = Inr c'"
  by (simp add: IndexTracker_close_after_def split: variant.splits)

lemma close_current_open:
  assumes "deref c x = Some t" and "isOpen t" and "m_parent t = Some p"
    and "m_children t = [] \<or> deref c (last (m_children t)) \<noteq> None"
  shows "\<exists>c'. close_current c x = Inr c' \<and> m_currentPart c' = Some p \<and>
    (\<forall>b. b \<noteq> x \<longrightarrow> deref c' b = deref c b) \<and> deref c' x \<noteq> None"
proof -
  from switch_open_returns [OF assms] obtain c2 where
    s: "PartTrackerBase_close_switch c x = Inr c2" by blast
  from assms(2) have ne: "\<not> hasEnded t" by (simp add: isOpen_def)
  from switch_not_ended [OF s assms(1) ne] assms(3) have m2: "m_currentPart c2 = Some p"
    by simp
  from switch_heap [OF s assms(1)] obtain st where
    d2: "deref c2 x = Some (t\<lparr>m_runState := st\<rparr>)" by blast
  have o2: "\<forall>b. b \<noteq> x \<longrightarrow> deref c2 b = deref c b"
    using switch_other [OF s] by blast
  show ?thesis
  proof (cases "variant t")
    case SectionTracker
    with assms(1) s have "close_current c x = Inr c2" by (simp add: close_current_def)
    with m2 o2 d2 show ?thesis by simp
  next
    case (IndexTracker sz ix)
    from after_returns [OF d2] obtain c' where a: "IndexTracker_close_after c2 x = Inr c'"
      by blast
    with assms(1) s IndexTracker have cc: "close_current c x = Inr c'"
      by (simp add: close_current_def)
    from after_frame [OF a] m2 have m: "m_currentPart c' = Some p" by simp
    from after_other [OF a] o2 have o: "\<forall>b. b \<noteq> x \<longrightarrow> deref c' b = deref c b" by simp
    from after_Inr [OF a d2] d2 have "deref c' x \<noteq> None"
      by (auto simp: deref_store dest: deref_Some_length)
    with cc m o show ?thesis by simp
  qed
qed

lemma open_chain_cong:
  assumes "\<forall>b\<in>set xs. deref c' b = deref c b"
    and "\<forall>b. deref c b \<noteq> None \<longrightarrow> deref c' b \<noteq> None"
  shows "open_chain c p xs this \<Longrightarrow> open_chain c' p xs this"
  using assms(1)
proof (induction xs arbitrary: p)
  case Nil
  then show ?case by simp
next
  case (Cons x xs)
  from Cons.prems obtain t q where
    t: "deref c x = Some t" "p = x" "x \<noteq> this" "isOpen t"
      "m_children t = [] \<or> deref c (last (m_children t)) \<noteq> None"
      "m_parent t = Some q" "open_chain c q xs this"
    by (auto split: option.splits)
  from Cons.prems(2) t(1) have t': "deref c' x = Some t" by simp
  from Cons.IH [OF t(7)] Cons.prems(2) have "open_chain c' q xs this" by simp
  with t t' assms(2) show ?case by auto
qed

lemma drain_open_chain:
  "distinct xs \<Longrightarrow> m_currentPart c = Some cur \<Longrightarrow> open_chain c cur xs this \<Longrightarrow>
   length xs \<le> fuel \<Longrightarrow>
   \<exists>c1. drain fuel c this = Some (Inr c1) \<and> m_currentPart c1 = Some this"
proof (induction xs arbitrary: c cur fuel)
  case Nil
  then show ?case by (simp add: drain_current)
next
  case (Cons x xs)
  from Cons.prems(3) obtain t p where
    t: "deref c x = Some t" "cur = x" "x \<noteq> this" "isOpen t"
      "m_children t = [] \<or> deref c (last (m_children t)) \<noteq> None"
      "m_parent t = Some p" "open_chain c p xs this"
    by (auto split: option.splits)
  from Cons.prems(4) obtain n where n: "fuel = Suc n" "length xs \<le> n"
    by (cases fuel) auto
  from close_current_open [OF t(1,4,6,5)] obtain c' where
    c': "close_current c x = Inr c'" "m_currentPart c' = Some p"
      "\<forall>b. b \<noteq> x \<longrightarrow> deref c' b = deref c b" "deref c' x \<noteq> None"
    by blast
  from Cons.prems(1) have x: "x \<notin> set xs" and dx: "distinct xs" by simp_all
  have "open_chain c' p xs this"
  proof (rule open_chain_cong [OF _ _ t(7)])
    show "\<forall>b\<in>set xs. deref c' b = deref c b" using c'(3) x by auto
    show "\<forall>b. deref c b \<noteq> None \<longrightarrow> deref c' b \<noteq> None"
      using c'(3,4) by metis
  qed
  from Cons.IH [OF dx c'(2) this n(2)] obtain c1 where
    "drain n c' this = Some (Inr c1)" "m_currentPart c1 = Some this" by blast
  moreover from Cons.prems(2) t(2,3) c'(1)
  have "drain (Suc n) c this = drain n c' this"
    by (simp add: drain_Suc_step)
  ultimately show ?case using n(1) by simp
qed

lemma drain_stuck:
  assumes "m_currentPart c = Some x" and "x \<noteq> this" and "close_current c x = Inr c"
  shows "drain fuel c this = None"
proof (induction fuel)
  case 0
  from assms(1,2) show ?case by (simp add: drain.simps)
next
  case (Suc fuel)
  with assms show ?case by (simp add: drain_Suc_step)
qed

subsection \<open>The virtual close, state by state\<close>

lemma close_after_drain:
  assumes "drain fuel c this = Some (Inr c1)" and "deref c1 this = Some t"
  shows "close fuel c this = Some (close_current c1 this)"
proof -
  from drain_result [OF assms(1)] assms(2) have "deref c this = Some t" by simp
  with assms(1) show ?thesis by (simp add: close_eq)
qed

lemma switch_completes:
  assumes "deref c this = Some t" and "m_parent t = Some p"
    and "m_runState t = Executing \<or>
         m_runState t = ExecutingChildren \<and>
           (m_children t = [] \<or> (\<exists>k. deref c (last (m_children t)) = Some k \<and> hasEnded k))"
  shows "PartTrackerBase_close_switch c this =
    Inr ((store c this (t\<lparr>m_runState := CompletedSuccessfully\<rparr>))
          \<lparr>m_currentPart := Some p, ctx_runState := CompletedCycle\<rparr>)"
  using assms
  by (auto simp: PartTrackerBase_close_switch_def leave_store_parent)

lemma close_current_completes:
  assumes "deref c this = Some t" and "m_parent t = Some p"
    and "m_runState t = Executing \<or>
         m_runState t = ExecutingChildren \<and>
           (m_children t = [] \<or> (\<exists>k. deref c (last (m_children t)) = Some k \<and> hasEnded k))"
  shows "close_current c this =
    Inr ((store c this
           (t\<lparr>m_runState :=
                (case variant t of
                   SectionTracker \<Rightarrow> CompletedSuccessfully
                 | IndexTracker N ix \<Rightarrow>
                     if ix < N - 1 then Executing else CompletedSuccessfully)\<rparr>))
          \<lparr>m_currentPart := Some p, ctx_runState := CompletedCycle\<rparr>)"
proof -
  let ?c0 = "store c this (t\<lparr>m_runState := CompletedSuccessfully\<rparr>)"
  let ?c2 = "?c0\<lparr>m_currentPart := Some p, ctx_runState := CompletedCycle\<rparr>"
  note s = switch_completes [OF assms]
  have d2: "deref ?c2 this = Some (t\<lparr>m_runState := CompletedSuccessfully\<rparr>)"
    using assms(1) by (auto simp: deref_store dest: deref_Some_length)
  show ?thesis
  proof (cases "variant t")
    case SectionTracker
    with assms(1) s show ?thesis by (simp add: close_current_def)
  next
    case (IndexTracker N ix)
    have "IndexTracker_close_after ?c2 this =
      Inr ((store c this
             (t\<lparr>m_runState := (if ix < N - 1 then Executing else CompletedSuccessfully)\<rparr>))
            \<lparr>m_currentPart := Some p, ctx_runState := CompletedCycle\<rparr>)"
      using d2 IndexTracker by (simp add: IndexTracker_close_after_def store_def)
    with assms(1) s IndexTracker show ?thesis by (simp add: close_current_def)
  qed
qed

lemma close_current_no_parent:
  assumes "deref c this = Some t" and "m_parent t = None"
    and "m_runState t = Executing \<or> m_runState t = NeedsAnotherRun \<or>
         m_runState t = ExecutingChildren \<and>
           (m_children t = [] \<or> deref c (last (m_children t)) \<noteq> None)"
  shows "close_current c this = Inl AssertionFailed"
  using switch_no_parent [OF assms(1,2) assms(3)] assms(1)
  by (simp add: close_current_def split: variant.splits)

section \<open>Facts about index trackers\<close>









lemma close_current_waiting:
  assumes "deref c g = Some gt" and "m_runState gt = ExecutingChildren"
    and "m_children gt \<noteq> []" and "deref c (last (m_children gt)) = Some kt"
    and "\<not> hasEnded kt" and "m_parent gt = Some p"
  shows "close_current c g = Inr (c\<lparr>m_currentPart := Some p, ctx_runState := CompletedCycle\<rparr>)"
proof -
  let ?c = "c\<lparr>m_currentPart := Some p, ctx_runState := CompletedCycle\<rparr>"
  from assms have s: "PartTrackerBase_close_switch c g = Inr ?c"
    by (simp add: PartTrackerBase_close_switch_def leave_parent)
  from assms(1,2) have a: "IndexTracker_close_after ?c g = Inr ?c"
    by (simp add: IndexTracker_close_after_def split: variant.splits)
  from assms(1) s a show ?thesis
    by (simp add: close_current_def split: variant.splits)
qed


section \<open>What a call leaves of a cell\<close>

text \<open>
  \<^verbatim>\<open>close\<close> and \<^verbatim>\<open>fail\<close> change nothing of a tracker but its run-state, and \<^verbatim>\<open>close\<close> does
  not change a tracker that has ended (for an index tracker that is completed: provided
  no index is left).
\<close>

lemma close_current_cell:
  assumes "close_current c this = Inr c'" and "deref c b = Some t"
  shows "\<exists>s. deref c' b = Some (t\<lparr>m_runState := s\<rparr>) \<and>
    (hasEnded t \<and> exhausted_if_completed t \<longrightarrow> s = m_runState t)"
proof (cases "b = this")
  case False
  with close_current_other [OF assms(1), of b] assms(2)
  have "deref c' b = Some (t\<lparr>m_runState := m_runState t\<rparr>)" by simp
  then show ?thesis by blast
next
  case True
  show ?thesis
  proof (cases "hasEnded t \<and> exhausted_if_completed t")
    case e: True
    with assms True close_current_ended [of c this t] have "c' = c" by simp
    with assms(2) have "deref c' b = Some (t\<lparr>m_runState := m_runState t\<rparr>)" by simp
    then show ?thesis by blast
  next
    case ne: False
    from assms True obtain c2 where
      s: "PartTrackerBase_close_switch c this = Inr c2" and
      a: "c' = c2 \<or> IndexTracker_close_after c2 this = Inr c'"
      by (auto simp: close_current_def split: variant.splits sum.splits)
    from switch_heap [OF s] assms(2) True obtain s2 where
      d2: "deref c2 this = Some (t\<lparr>m_runState := s2\<rparr>)" by blast
    from a have "\<exists>s. deref c' this = Some (t\<lparr>m_runState := s\<rparr>)"
    proof
      assume "c' = c2"
      with d2 show ?thesis by blast
    next
      assume "IndexTracker_close_after c2 this = Inr c'"
      from after_Inr [OF this d2] d2 show ?thesis
        by (auto simp: deref_store dest: deref_Some_length)
    qed
    with ne True show ?thesis by blast
  qed
qed

lemma close_current_length:
  "close_current c this = Inr c' \<Longrightarrow> length (heap c') = length (heap c)"
  by (auto simp: close_current_def PartTrackerBase_close_switch_def leave_Inr
      IndexTracker_close_after_def
      split: option.splits variant.splits sum.splits RunState.splits if_splits)

lemma drain_cell:
  "drain fuel c this = Some (Inr c1) \<Longrightarrow> deref c b = Some t \<Longrightarrow>
   \<exists>s. deref c1 b = Some (t\<lparr>m_runState := s\<rparr>) \<and>
     (hasEnded t \<and> exhausted_if_completed t \<longrightarrow> s = m_runState t)"
proof (induction fuel arbitrary: c t)
  case 0
  then have "c1 = c" by (auto simp: drain.simps split: option.splits if_splits)
  with "0.prems"(2) have "deref c1 b = Some (t\<lparr>m_runState := m_runState t\<rparr>)" by simp
  then show ?case by blast
next
  case (Suc fuel)
  show ?case
  proof (cases "m_currentPart c = Some this")
    case True
    with Suc.prems have "c1 = c" by (simp add: drain_current)
    with Suc.prems(2) have "deref c1 b = Some (t\<lparr>m_runState := m_runState t\<rparr>)" by simp
    then show ?thesis by blast
  next
    case False
    with Suc.prems(1) obtain cur where cur: "m_currentPart c = Some cur" "cur \<noteq> this"
      by (cases "m_currentPart c") (auto simp: drain.simps)
    with Suc.prems(1) obtain c' where
      c': "close_current c cur = Inr c'" and d: "drain fuel c' this = Some (Inr c1)"
      by (auto simp: drain_Suc_step split: sum.splits)
    from close_current_cell [OF c' Suc.prems(2)] obtain s1 where
      s1: "deref c' b = Some (t\<lparr>m_runState := s1\<rparr>)"
        "hasEnded t \<and> exhausted_if_completed t \<longrightarrow> s1 = m_runState t"
      by blast
    from Suc.IH [OF d s1(1)] obtain s where
      s: "deref c1 b = Some (t\<lparr>m_runState := s1, m_runState := s\<rparr>)"
        "hasEnded (t\<lparr>m_runState := s1\<rparr>) \<and> exhausted_if_completed (t\<lparr>m_runState := s1\<rparr>)
           \<longrightarrow> s = m_runState (t\<lparr>m_runState := s1\<rparr>)"
      by blast
    from s(1) have 1: "deref c1 b = Some (t\<lparr>m_runState := s\<rparr>)" by simp
    have 2: "hasEnded t \<and> exhausted_if_completed t \<longrightarrow> s = m_runState t"
    proof
      assume e: "hasEnded t \<and> exhausted_if_completed t"
      with s1(2) have "t\<lparr>m_runState := s1\<rparr> = t" by simp
      with s(2) e show "s = m_runState t" by simp
    qed
    from 1 2 show ?thesis by blast
  qed
qed

lemma drain_length:
  "drain fuel c this = Some (Inr c1) \<Longrightarrow> length (heap c1) = length (heap c)"
proof (induction fuel arbitrary: c)
  case 0
  then show ?case by (auto simp: drain.simps split: option.splits if_splits)
next
  case (Suc fuel)
  show ?case
  proof (cases "m_currentPart c = Some this")
    case True
    with Suc.prems show ?thesis by (simp add: drain_current)
  next
    case False
    with Suc.prems(1) obtain cur where cur: "m_currentPart c = Some cur" "cur \<noteq> this"
      by (cases "m_currentPart c") (auto simp: drain.simps)
    with Suc.prems(1) obtain c' where
      c': "close_current c cur = Inr c'" and d: "drain fuel c' this = Some (Inr c1)"
      by (auto simp: drain_Suc_step split: sum.splits)
    from Suc.IH [OF d] close_current_length [OF c'] show ?thesis by simp
  qed
qed

lemma close_split:
  assumes "close fuel c this = Some (Inr c')"
  obtains c1 where "drain fuel c this = Some (Inr c1)" and "close_current c1 this = Inr c'"
  using assms by (auto simp: close_eq split: option.splits sum.splits)

lemma close_cell:
  assumes "close fuel c this = Some (Inr c')" and "deref c b = Some t"
  shows "\<exists>s. deref c' b = Some (t\<lparr>m_runState := s\<rparr>) \<and>
    (hasEnded t \<and> exhausted_if_completed t \<longrightarrow> s = m_runState t)"
proof -
  from assms(1) obtain c1 where
    d: "drain fuel c this = Some (Inr c1)" and r: "close_current c1 this = Inr c'"
    by (rule close_split)
  from drain_cell [OF d assms(2)] obtain s1 where
    s1: "deref c1 b = Some (t\<lparr>m_runState := s1\<rparr>)"
      "hasEnded t \<and> exhausted_if_completed t \<longrightarrow> s1 = m_runState t"
    by blast
  from close_current_cell [OF r s1(1)] obtain s where
    s: "deref c' b = Some (t\<lparr>m_runState := s1, m_runState := s\<rparr>)"
      "hasEnded (t\<lparr>m_runState := s1\<rparr>) \<and> exhausted_if_completed (t\<lparr>m_runState := s1\<rparr>)
         \<longrightarrow> s = m_runState (t\<lparr>m_runState := s1\<rparr>)"
    by blast
  from s(1) have 1: "deref c' b = Some (t\<lparr>m_runState := s\<rparr>)" by simp
  have 2: "hasEnded t \<and> exhausted_if_completed t \<longrightarrow> s = m_runState t"
  proof
    assume e: "hasEnded t \<and> exhausted_if_completed t"
    with s1(2) have "t\<lparr>m_runState := s1\<rparr> = t" by simp
    with s(2) e show "s = m_runState t" by simp
  qed
  from 1 2 show ?thesis by blast
qed

lemma close_length:
  assumes "close fuel c this = Some (Inr c')"
  shows "length (heap c') = length (heap c)"
proof -
  from assms obtain c1 where
    d: "drain fuel c this = Some (Inr c1)" and r: "close_current c1 this = Inr c'"
    by (rule close_split)
  from drain_length [OF d] close_current_length [OF r] show ?thesis by simp
qed

lemma fail_cell:
  assumes "fail c this = Inr c'" and "deref c b = Some t"
  shows "\<exists>s. deref c' b = Some (t\<lparr>m_runState := s\<rparr>) \<and>
    (s = m_runState t \<or> b = this \<and> s = Failed \<or>
     (\<exists>u. deref c this = Some u \<and> m_parent u = Some b) \<and> s = NeedsAnotherRun)"
proof -
  from assms(1) obtain u p where u: "deref c this = Some u" "m_parent u = Some p"
    by (auto simp: fail_def leave_store_no_parent split: option.splits)
  let ?c1 = "store c this (u\<lparr>m_runState := Failed\<rparr>)"
  from assms(1) u obtain tp pa where
    tp: "deref ?c1 p = Some tp" and
    c': "c' = (store ?c1 p (tp\<lparr>m_runState := NeedsAnotherRun\<rparr>))
                \<lparr>m_currentPart := Some pa, ctx_runState := CompletedCycle\<rparr>"
    by (auto simp: fail_def markAsNeedingAnotherRun_def leave_Inr
        split: option.splits sum.splits)
  show ?thesis
  proof (cases "b = p")
    case True
    from tp assms(2) u(1) True
    have "tp = t\<lparr>m_runState := m_runState t\<rparr> \<or> tp = t\<lparr>m_runState := Failed\<rparr>"
      by (auto simp: deref_store split: if_splits)
    then obtain s0 where "tp = t\<lparr>m_runState := s0\<rparr>" by blast
    moreover from assms(2) True have "p < length (heap c)"
      by (auto dest: deref_Some_length)
    ultimately have "deref c' b = Some (t\<lparr>m_runState := NeedsAnotherRun\<rparr>)"
      unfolding c' using True by (simp add: deref_store)
    with u True show ?thesis by blast
  next
    case False
    show ?thesis
    proof (cases "b = this")
      case True
      with False assms(2) u(1) have "deref c' b = Some (t\<lparr>m_runState := Failed\<rparr>)"
        unfolding c' by (auto simp: deref_store dest: deref_Some_length)
      with True show ?thesis by blast
    next
      case nt: False
      with False assms(2) have "deref c' b = Some (t\<lparr>m_runState := m_runState t\<rparr>)"
        unfolding c' by (auto simp: deref_store)
      then show ?thesis by blast
    qed
  qed
qed

lemma fail_length: "fail c this = Inr c' \<Longrightarrow> length (heap c') = length (heap c)"
  by (auto simp: fail_def markAsNeedingAnotherRun_def leave_Inr
      split: option.splits sum.splits)

section \<open>Parent pointers and what open changes\<close>

lemma ancestor_trans: "ancestor c b x \<Longrightarrow> ancestor c a b \<Longrightarrow> ancestor c a x"
  by (induction rule: ancestor.induct) (auto intro: ancestor.intros)

lemma ancestor_mono:
  assumes "\<And>b t p. deref c b = Some t \<Longrightarrow> m_parent t = Some p \<Longrightarrow>
                   \<exists>t'. deref c' b = Some t' \<and> m_parent t' = Some p"
  shows "ancestor c a x \<Longrightarrow> ancestor c' a x"
proof (induction rule: ancestor.induct)
  case ancestor_self
  show ?case by (rule ancestor.ancestor_self)
next
  case (ancestor_parent b t p)
  from assms [OF ancestor_parent.hyps(2,3)] obtain t' where
    "deref c' b = Some t'" "m_parent t' = Some p" by blast
  with ancestor_parent.IH show ?case by (rule ancestor.ancestor_parent)
qed

lemma ancestor_store:
  assumes "deref c x = Some u" and "m_parent u' = m_parent u"
  shows "ancestor (store c x u') a b = ancestor c a b"
proof
  assume "ancestor (store c x u') a b"
  then show "ancestor c a b"
  proof (rule ancestor_mono [rotated])
    fix b t p
    assume "deref (store c x u') b = Some t" and "m_parent t = Some p"
    with assms show "\<exists>t'. deref c b = Some t' \<and> m_parent t' = Some p"
      by (auto simp: deref_store split: if_splits)
  qed
next
  assume "ancestor c a b"
  then show "ancestor (store c x u') a b"
  proof (rule ancestor_mono [rotated])
    fix b t p
    assume "deref c b = Some t" and "m_parent t = Some p"
    with assms show "\<exists>t'. deref (store c x u') b = Some t' \<and> m_parent t' = Some p"
      by (auto simp: deref_store dest: deref_Some_length)
  qed
qed

lemma ancestor_store_state:
  "deref c x = Some u \<Longrightarrow> ancestor (store c x (u\<lparr>m_runState := s\<rparr>)) a b = ancestor c a b"
  by (rule ancestor_store) simp_all

lemma ancestor_fields [simp]:
  "ancestor (c\<lparr>m_currentPart := x\<rparr>) a b = ancestor c a b"
  "ancestor (c\<lparr>ctx_runState := y\<rparr>) a b = ancestor c a b"
  "ancestor (c\<lparr>m_rootPart := z\<rparr>) a b = ancestor c a b"
  by (auto elim: ancestor_mono [rotated])

lemma openChild_fields:
  "openChild c this = Inr c' \<Longrightarrow>
   m_currentPart c' = m_currentPart c \<and> m_rootPart c' = m_rootPart c \<and>
   ctx_runState c' = ctx_runState c \<and> length (heap c') = length (heap c)"
proof (induction c this rule: openChild.induct)
  case (1 c this)
  show ?case
  proof (cases "deref c this")
    case None
    with "1.prems" show ?thesis by (simp add: openChild.simps [of c this])
  next
    case (Some u)
    show ?thesis
    proof (cases "m_runState u = ExecutingChildren")
      case True
      with Some "1.prems" show ?thesis by (simp add: openChild.simps [of c this])
    next
      case False
      show ?thesis
      proof (cases "m_parent u")
        case None
        with Some False "1.prems" show ?thesis by (auto simp: openChild.simps [of c this])
      next
        case (Some p)
        with \<open>deref c this = Some u\<close> False "1.prems"
        have "openChild (store c this (u\<lparr>m_runState := ExecutingChildren\<rparr>)) p = Inr c'"
          by (simp add: openChild.simps [of c this])
        from "1.IH" [OF \<open>deref c this = Some u\<close> False Some this] show ?thesis by simp
      qed
    qed
  qed
qed

lemma openChild_cell:
  "openChild c this = Inr c' \<Longrightarrow> deref c b = Some t \<Longrightarrow>
   \<exists>s. deref c' b = Some (t\<lparr>m_runState := s\<rparr>) \<and>
     (s = m_runState t \<or> s = ExecutingChildren \<and> ancestor c this b)"
proof (induction c this arbitrary: t rule: openChild.induct)
  case (1 c this)
  from "1.prems"(1) obtain u where u: "deref c this = Some u"
    by (cases "deref c this") (auto simp: openChild.simps [of c this])
  show ?case
  proof (cases "m_runState u = ExecutingChildren")
    case True
    with u "1.prems" have "c' = c" by (simp add: openChild.simps [of c this])
    with "1.prems"(2) have "deref c' b = Some (t\<lparr>m_runState := m_runState t\<rparr>)" by simp
    then show ?thesis by blast
  next
    case False
    let ?c = "store c this (u\<lparr>m_runState := ExecutingChildren\<rparr>)"
    define s0 where "s0 = (if b = this then ExecutingChildren else m_runState t)"
    from u "1.prems"(2) have d0: "deref ?c b = Some (t\<lparr>m_runState := s0\<rparr>)"
      by (auto simp: s0_def deref_store dest: deref_Some_length)
    have s0: "s0 = m_runState t \<or> s0 = ExecutingChildren \<and> ancestor c this b"
      by (auto simp: s0_def intro: ancestor_self)
    show ?thesis
    proof (cases "m_parent u")
      case None
      with u False "1.prems"(1) have "c' = ?c" by (simp add: openChild.simps [of c this])
      with d0 s0 show ?thesis by blast
    next
      case (Some p)
      with u False "1.prems"(1) have "openChild ?c p = Inr c'"
        by (simp add: openChild.simps [of c this])
      from "1.IH" [OF u False Some this d0] obtain s where
        s: "deref c' b = Some (t\<lparr>m_runState := s\<rparr>)"
          "s = s0 \<or> s = ExecutingChildren \<and> ancestor ?c p b"
        by auto
      have "ancestor c this p"
        using ancestor_self u Some by (rule ancestor_parent)
      then have "ancestor ?c p b \<Longrightarrow> ancestor c this b"
        by (simp add: ancestor_store_state [OF u] ancestor_trans)
      with s s0 show ?thesis by blast
    qed
  qed
qed

lemma open_part_fields:
  assumes "open_part c this = Inr c'"
  shows "m_currentPart c' = Some this" and "m_rootPart c' = m_rootPart c"
    and "ctx_runState c' = ctx_runState c" and "length (heap c') = length (heap c)"
proof -
  from assms obtain u where u: "deref c this = Some u"
    by (auto simp: open_part_def split: option.splits)
  let ?c = "moveToThis (store c this (u\<lparr>m_runState := Executing\<rparr>)) this"
  have "m_currentPart c' = Some this \<and> m_rootPart c' = m_rootPart c \<and>
    ctx_runState c' = ctx_runState c \<and> length (heap c') = length (heap c)"
  proof (cases "m_parent u")
    case None
    with u assms show ?thesis
      by (auto simp: open_part_def moveToThis_def setCurrentPart_def)
  next
    case (Some p)
    with u assms have "openChild ?c p = Inr c'" by (simp add: open_part_def)
    from openChild_fields [OF this] show ?thesis
      by (simp add: moveToThis_def setCurrentPart_def)
  qed
  then show "m_currentPart c' = Some this" and "m_rootPart c' = m_rootPart c"
    and "ctx_runState c' = ctx_runState c" and "length (heap c') = length (heap c)"
    by simp_all
qed

lemma open_part_cell:
  assumes "open_part c this = Inr c'" and "deref c this = Some u" and "deref c b = Some t"
  shows "\<exists>s. deref c' b = Some (t\<lparr>m_runState := s\<rparr>) \<and>
    (b = this \<and> (s = Executing \<or> s = ExecutingChildren) \<or>
     b \<noteq> this \<and> (s = m_runState t \<or>
       s = ExecutingChildren \<and> (\<exists>p. m_parent u = Some p \<and> ancestor c p b)))"
proof -
  let ?c0 = "store c this (u\<lparr>m_runState := Executing\<rparr>)"
  let ?c = "moveToThis ?c0 this"
  define s0 where "s0 = (if b = this then Executing else m_runState t)"
  from assms(2,3) have d0: "deref ?c b = Some (t\<lparr>m_runState := s0\<rparr>)"
    by (auto simp: s0_def deref_store moveToThis_def setCurrentPart_def
        dest: deref_Some_length)
  show ?thesis
  proof (cases "m_parent u")
    case None
    with assms(1,2) have "c' = ?c" by (simp add: open_part_def)
    with d0 have "deref c' b = Some (t\<lparr>m_runState := s0\<rparr>)" by simp
    moreover have "b = this \<and> s0 = Executing \<or> b \<noteq> this \<and> s0 = m_runState t"
      by (simp add: s0_def)
    ultimately show ?thesis by blast
  next
    case (Some p)
    with assms(1,2) have "openChild ?c p = Inr c'" by (simp add: open_part_def)
    from openChild_cell [OF this d0] obtain s where
      s: "deref c' b = Some (t\<lparr>m_runState := s\<rparr>)"
        "s = s0 \<or> s = ExecutingChildren \<and> ancestor ?c p b"
      by auto
    have "ancestor ?c p b = ancestor c p b"
      by (simp add: moveToThis_def setCurrentPart_def ancestor_store_state [OF assms(2)])
    moreover have "b = this \<and> s0 = Executing \<or> b \<noteq> this \<and> s0 = m_runState t"
      by (simp add: s0_def)
    ultimately show ?thesis using s Some by blast
  qed
qed

section \<open>The tree invariant holds in every reachable context\<close>

lemma states_changed_back:
  assumes "states_changed c c'" and "deref c' b = Some t'"
  shows "\<exists>t. deref c b = Some t \<and> t' = t\<lparr>m_runState := m_runState t'\<rparr>"
proof -
  from assms have "b < length (heap c)"
    by (auto simp: states_changed_def dest: deref_Some_length)
  then have t: "deref c b = Some (heap c ! b)" by (simp add: deref_def)
  with assms(1) obtain s where "deref c' b = Some ((heap c ! b)\<lparr>m_runState := s\<rparr>)"
    unfolding states_changed_def by blast
  with assms(2) have "t' = (heap c ! b)\<lparr>m_runState := s\<rparr>" by simp
  then have "t' = (heap c ! b)\<lparr>m_runState := m_runState t'\<rparr>" by simp
  with t show ?thesis by blast
qed

lemma ancestor_states_changed:
  assumes "states_changed c c'"
  shows "ancestor c' a b = ancestor c a b"
proof
  assume "ancestor c' a b"
  then show "ancestor c a b"
  proof (rule ancestor_mono [rotated])
    fix b t p
    assume "deref c' b = Some t" and "m_parent t = Some p"
    with states_changed_back [OF assms, of b t]
    show "\<exists>t'. deref c b = Some t' \<and> m_parent t' = Some p"
      by (metis PartTracker.select_convs(3) PartTracker.surjective PartTracker.update_convs(5))
  qed
next
  assume "ancestor c a b"
  then show "ancestor c' a b"
  proof (rule ancestor_mono [rotated])
    fix b t p
    assume "deref c b = Some t" and "m_parent t = Some p"
    with assms show "\<exists>t'. deref c' b = Some t' \<and> m_parent t' = Some p"
      by (fastforce simp: states_changed_def)
  qed
qed

lemma chain_openD:
  "chain_open c \<Longrightarrow> \<not> completedCycle c \<Longrightarrow> m_currentPart c = Some cur \<Longrightarrow>
   ancestor c cur a \<Longrightarrow> deref c a = Some t \<Longrightarrow> \<not> hasEnded t"
  unfolding chain_open_def by blast

lemma chain_openI:
  assumes "\<And>cur a t. \<not> completedCycle c \<Longrightarrow> m_currentPart c = Some cur \<Longrightarrow>
    ancestor c cur a \<Longrightarrow> deref c a = Some t \<Longrightarrow> \<not> hasEnded t"
  shows "chain_open c"
  unfolding chain_open_def using assms by blast

lemma root_openD:
  "root_open c \<Longrightarrow> m_rootPart c = Some r \<Longrightarrow>
   \<exists>rt. deref c r = Some rt \<and> m_parent rt = None \<and> \<not> hasEnded rt"
  unfolding root_open_def by blast

lemma children_linkedD:
  "children_linked c \<Longrightarrow> deref c a = Some t \<Longrightarrow> ch \<in> set (m_children t) \<Longrightarrow>
   \<exists>u. deref c ch = Some u \<and> m_parent u = Some a"
  unfolding children_linked_def by blast

lemma tree_invariantD:
  assumes "tree_invariant c"
  shows "chain_open c" and "root_open c" and "children_linked c"
  using assms by (simp_all add: tree_invariant_def)

lemma children_linked_states_changed:
  assumes "states_changed c c'" and "children_linked c"
  shows "children_linked c'"
  unfolding children_linked_def
proof (intro allI impI)
  fix a t' ch
  assume a: "deref c' a = Some t'" and ch: "ch \<in> set (m_children t')"
  from states_changed_back [OF assms(1) a] obtain t where
    t: "deref c a = Some t" "t' = t\<lparr>m_runState := m_runState t'\<rparr>" by blast
  from t(2) have "m_children t' = m_children t"
    by (metis PartTracker.select_convs(4) PartTracker.surjective PartTracker.update_convs(5))
  with ch children_linkedD [OF assms(2) t(1), of ch] obtain u where
    u: "deref c ch = Some u" "m_parent u = Some a"
    by auto
  with assms(1) show "\<exists>u. deref c' ch = Some u \<and> m_parent u = Some a"
    by (fastforce simp: states_changed_def)
qed

lemma ancestor_from_child:
  assumes "deref c part = Some pt" and "m_parent pt = Some cur"
  shows "ancestor c part a \<Longrightarrow> a = part \<or> ancestor c cur a"
proof (induction rule: ancestor.induct)
  case ancestor_self
  show ?case by simp
next
  case (ancestor_parent b t p)
  from ancestor_parent.IH show ?case
  proof
    assume "b = part"
    with ancestor_parent.hyps(2,3) assms have "p = cur" by simp
    then show ?thesis by (simp add: ancestor_self)
  next
    assume "ancestor c cur b"
    from this ancestor_parent.hyps(2,3) have "ancestor c cur p" by (rule ancestor.ancestor_parent)
    then show ?thesis ..
  qed
qed

lemma open_part_states_changed:
  assumes "open_part c this = Inr c'"
  shows "states_changed c c'"
proof -
  from assms obtain u where u: "deref c this = Some u"
    by (auto simp: open_part_def split: option.splits)
  from open_part_cell [OF assms u] open_part_fields(4) [OF assms]
  show ?thesis unfolding states_changed_def by blast
qed

lemma tree_invariant_open_part:
  assumes inv: "tree_invariant c" and cur: "m_currentPart c = Some cur"
    and pt: "deref c part = Some pt" "m_parent pt = Some cur" "\<not> hasEnded pt"
    and nc: "\<not> completedCycle c"
    and o: "open_part c part = Inr c'"
  shows "tree_invariant c'"
proof -
  note sc = open_part_states_changed [OF o]
  note f = open_part_fields [OF o]
  have cell: "\<not> hasEnded t'" if "deref c' a = Some t'"
    and "a = part \<or> (\<exists>t. deref c a = Some t \<and> \<not> hasEnded t)" for a t'
  proof -
    from states_changed_back [OF sc that(1)] obtain t where
      t: "deref c a = Some t" by blast
    from open_part_cell [OF o pt(1) t] that(1) have
      "a = part \<and> (m_runState t' = Executing \<or> m_runState t' = ExecutingChildren) \<or>
       a \<noteq> part \<and> (m_runState t' = m_runState t \<or> m_runState t' = ExecutingChildren)"
      by auto
    with that(2) t show ?thesis by (auto simp: hasEnded_def)
  qed
  have 1: "chain_open c'"
    unfolding chain_open_def
  proof (intro disjI2 allI impI)
    fix x a t'
    assume "m_currentPart c' = Some x" and an: "ancestor c' x a" and d: "deref c' a = Some t'"
    with f(1) have "x = part" by simp
    with an have "ancestor c part a" by (simp add: ancestor_states_changed [OF sc])
    from ancestor_from_child [OF pt(1,2) this] show "\<not> hasEnded t'"
    proof
      assume "a = part"
      with cell [OF d] show ?thesis by blast
    next
      assume a: "ancestor c cur a"
      from states_changed_back [OF sc d] obtain t where t: "deref c a = Some t" by blast
      from chain_openD [OF tree_invariantD(1) [OF inv] nc cur a t] have "\<not> hasEnded t" .
      with t cell [OF d] show ?thesis by blast
    qed
  qed
  have 2: "root_open c'"
    unfolding root_open_def
  proof (intro allI impI)
    fix r
    assume "m_rootPart c' = Some r"
    with f(2) have "m_rootPart c = Some r" by simp
    from root_openD [OF tree_invariantD(2) [OF inv] this] obtain rt where
      rt: "deref c r = Some rt" "m_parent rt = None" "\<not> hasEnded rt"
      by blast
    from sc rt(1) obtain s where s: "deref c' r = Some (rt\<lparr>m_runState := s\<rparr>)"
      by (auto simp: states_changed_def)
    from cell [OF s] rt(1,3) have "\<not> hasEnded (rt\<lparr>m_runState := s\<rparr>)" by blast
    with s rt(2) show "\<exists>rt. deref c' r = Some rt \<and> m_parent rt = None \<and> \<not> hasEnded rt"
      by simp
  qed
  from inv have "children_linked c'"
    by (auto simp: tree_invariant_def intro: children_linked_states_changed [OF sc])
  with 1 2 show ?thesis by (simp add: tree_invariant_def)
qed

lemma tree_invariant_store:
  assumes inv: "tree_invariant c" and x: "deref c x = Some u"
    and u': "m_parent u' = m_parent u" "m_runState u' = m_runState u"
      "set (m_children u') \<subseteq> set (m_children u)"
  shows "tree_invariant (store c x u')"
proof -
  let ?c = "store c x u'"
  have cell: "\<exists>t. deref c a = Some t \<and> m_parent t' = m_parent t \<and>
      m_runState t' = m_runState t \<and> set (m_children t') \<subseteq> set (m_children t)"
    if "deref ?c a = Some t'" for a t'
    using that x u' by (auto simp: deref_store split: if_splits)
  have fwd: "\<exists>t'. deref ?c a = Some t' \<and> m_parent t' = m_parent t" if "deref c a = Some t" for a t
    using that x u' by (auto simp: deref_store dest: deref_Some_length)
  have 1: "chain_open ?c"
  proof (rule chain_openI)
    fix cur a t'
    assume nc: "\<not> completedCycle ?c" and m: "m_currentPart ?c = Some cur"
      and an: "ancestor ?c cur a" and d: "deref ?c a = Some t'"
    from nc have nc': "\<not> completedCycle c" by (simp add: completedCycle_def)
    from m have m': "m_currentPart c = Some cur" by simp
    from an have an': "ancestor c cur a" by (simp add: ancestor_store [OF x u'(1)])
    from cell [OF d] obtain t where t: "deref c a = Some t" "m_runState t' = m_runState t"
      by blast
    from chain_openD [OF tree_invariantD(1) [OF inv] nc' m' an' t(1)] t(2)
    show "\<not> hasEnded t'" by (simp add: hasEnded_def)
  qed
  have 2: "root_open ?c"
    unfolding root_open_def
  proof (intro allI impI)
    fix r
    assume "m_rootPart ?c = Some r"
    then have "m_rootPart c = Some r" by simp
    from root_openD [OF tree_invariantD(2) [OF inv] this] obtain rt where
      rt: "deref c r = Some rt" "m_parent rt = None" "\<not> hasEnded rt" by blast
    from fwd [OF rt(1)] obtain rt' where rt': "deref ?c r = Some rt'" by blast
    from cell [OF rt'] rt have "m_parent rt' = None \<and> \<not> hasEnded rt'"
      by (auto simp: hasEnded_def)
    with rt' show "\<exists>rt. deref ?c r = Some rt \<and> m_parent rt = None \<and> \<not> hasEnded rt"
      by blast
  qed
  have 3: "children_linked ?c"
    unfolding children_linked_def
  proof (intro allI impI)
    fix a t' ch
    assume a: "deref ?c a = Some t'" and ch: "ch \<in> set (m_children t')"
    from cell [OF a] obtain t where t: "deref c a = Some t"
      "set (m_children t') \<subseteq> set (m_children t)" by blast
    with ch have "ch \<in> set (m_children t)" by blast
    from children_linkedD [OF tree_invariantD(3) [OF inv] t(1) this] obtain w where
      w: "deref c ch = Some w" "m_parent w = Some a" by blast
    from fwd [OF w(1)] w(2) show "\<exists>u. deref ?c ch = Some u \<and> m_parent u = Some a"
      by auto
  qed
  from 1 2 3 show ?thesis by (simp add: tree_invariant_def)
qed

lemma deref_with_child_cases:
  assumes "deref c cur = Some ct" and "deref (with_child c cur ct new) b = Some t2"
  shows "b = length (heap c) \<and> t2 = new \<or>
    (\<exists>t. deref c b = Some t \<and> m_parent t2 = m_parent t \<and> m_runState t2 = m_runState t \<and>
       variant t2 = variant t \<and>
       t2 = (if b = cur then ct\<lparr>m_children := m_children ct @ [length (heap c)]\<rparr> else t))"
proof (cases "b = length (heap c)")
  case True
  with assms deref_with_child_new [OF assms(1), of new] show ?thesis by simp
next
  case False
  from assms(2) have "b < Suc (length (heap c))"
    by (auto dest: deref_Some_length)
  with False have t: "deref c b = Some (heap c ! b)" by (simp add: deref_def)
  from deref_with_child_old [OF assms(1) t, of new] assms t show ?thesis by auto
qed

lemma tree_invariant_with_child:
  assumes inv: "tree_invariant c" and cur: "m_currentPart c = Some cur"
    and ct: "deref c cur = Some ct"
    and new: "m_parent new = Some cur" "m_children new = []" "\<not> hasEnded new"
  shows "tree_invariant (with_child c cur ct new)"
proof -
  let ?c = "with_child c cur ct new"
  let ?n = "length (heap c)"
  note cases = deref_with_child_cases [OF ct]
  have reach: "a = ?n \<or> ancestor c cur a" if "ancestor ?c cur a" for a
    using that
  proof (induction rule: ancestor.induct)
    case ancestor_self
    show ?case by (simp add: ancestor.ancestor_self)
  next
    case (ancestor_parent b t2 p)
    from cases [OF ancestor_parent.hyps(2)] show ?case
    proof (elim disjE conjE exE)
      assume "t2 = new"
      with ancestor_parent.hyps(3) new(1) have "p = cur" by simp
      then show ?thesis by (simp add: ancestor.ancestor_self)
    next
      fix t
      assume t: "deref c b = Some t" "m_parent t2 = m_parent t"
      from t(1) have "b \<noteq> ?n" by (auto dest: deref_Some_length)
      with ancestor_parent.IH have b: "ancestor c cur b" by simp
      from ancestor_parent.hyps(3) t(2) have "m_parent t = Some p" by simp
      with b t(1) have "ancestor c cur p" by (rule ancestor.ancestor_parent)
      then show ?thesis ..
    qed
  qed
  have 1: "chain_open ?c"
  proof (rule chain_openI)
    fix x a t2
    assume nc: "\<not> completedCycle ?c" and m: "m_currentPart ?c = Some x"
      and an: "ancestor ?c x a" and d: "deref ?c a = Some t2"
    from nc have nc': "\<not> completedCycle c" by (simp add: completedCycle_def)
    from m cur have x: "x = cur" by simp
    from cases [OF d] show "\<not> hasEnded t2"
    proof (elim disjE conjE exE)
      assume "t2 = new"
      with new(3) show ?thesis by simp
    next
      fix t
      assume t: "deref c a = Some t" "m_runState t2 = m_runState t"
      from t(1) have "a \<noteq> ?n" by (auto dest: deref_Some_length)
      with reach [of a] an x have "ancestor c cur a" by simp
      from chain_openD [OF tree_invariantD(1) [OF inv] nc' cur this t(1)] t(2)
      show ?thesis by (simp add: hasEnded_def)
    qed
  qed
  have old: "\<exists>t2. deref ?c a = Some t2 \<and> m_parent t2 = m_parent t \<and>
      m_runState t2 = m_runState t" if "deref c a = Some t" for a t
  proof (cases "a = cur")
    case True
    with deref_with_child_old [OF ct that, of new] ct that show ?thesis by simp
  next
    case False
    with deref_with_child_old [OF ct that, of new] show ?thesis by simp
  qed
  have 2: "root_open ?c"
    unfolding root_open_def
  proof (intro allI impI)
    fix r
    assume "m_rootPart ?c = Some r"
    then have "m_rootPart c = Some r" by simp
    from root_openD [OF tree_invariantD(2) [OF inv] this] obtain rt where
      rt: "deref c r = Some rt" "m_parent rt = None" "\<not> hasEnded rt" by blast
    from old [OF rt(1)] rt(2,3)
    show "\<exists>rt. deref ?c r = Some rt \<and> m_parent rt = None \<and> \<not> hasEnded rt"
      by (auto simp: hasEnded_def)
  qed
  have 3: "children_linked ?c"
    unfolding children_linked_def
  proof (intro allI impI)
    fix a t2 ch
    assume a: "deref ?c a = Some t2" and ch: "ch \<in> set (m_children t2)"
    from cases [OF a] show "\<exists>u. deref ?c ch = Some u \<and> m_parent u = Some a"
    proof (elim disjE conjE exE)
      assume "t2 = new"
      with ch new(2) show ?thesis by simp
    next
      fix t
      assume t: "deref c a = Some t"
        "t2 = (if a = cur then ct\<lparr>m_children := m_children ct @ [?n]\<rparr> else t)"
      have lnk: "\<exists>u. deref ?c ch = Some u \<and> m_parent u = Some a"
        if "ch \<in> set (m_children t)"
      proof -
        from children_linkedD [OF tree_invariantD(3) [OF inv] t(1) that] obtain w where
          w: "deref c ch = Some w" "m_parent w = Some a" by blast
        from old [OF w(1)] w(2) show ?thesis by auto
      qed
      show ?thesis
      proof (cases "a = cur")
        case False
        with t(2) ch have "ch \<in> set (m_children t)" by simp
        then show ?thesis by (rule lnk)
      next
        case True
        with t(1) ct have "t = ct" by simp
        with True t(2) ch have "ch \<in> set (m_children t) \<or> ch = ?n" by auto
        then show ?thesis
        proof
          assume "ch \<in> set (m_children t)"
          then show ?thesis by (rule lnk)
        next
          assume "ch = ?n"
          with True new(1) deref_with_child_new [OF ct, of new] show ?thesis by simp
        qed
      qed
    qed
  qed
  from 1 2 3 show ?thesis by (simp add: tree_invariant_def)
qed

lemma tree_invariant_flags:
  assumes "tree_invariant c" and "completedCycle c'" and "states_changed c c'"
    and "m_rootPart c' = m_rootPart c"
    and "\<And>r rt. m_rootPart c = Some r \<Longrightarrow> deref c r = Some rt \<Longrightarrow> m_parent rt = None \<Longrightarrow>
           \<not> hasEnded rt \<Longrightarrow> \<exists>rt'. deref c' r = Some rt' \<and> m_parent rt' = None \<and> \<not> hasEnded rt'"
  shows "tree_invariant c'"
proof -
  from assms(2) have 1: "chain_open c'" by (simp add: chain_open_def)
  have 2: "root_open c'"
    unfolding root_open_def
  proof (intro allI impI)
    fix r
    assume "m_rootPart c' = Some r"
    with assms(4) have r: "m_rootPart c = Some r" by simp
    from root_openD [OF tree_invariantD(2) [OF assms(1)] r] obtain rt where
      "deref c r = Some rt" "m_parent rt = None" "\<not> hasEnded rt" by blast
    from assms(5) [OF r this]
    show "\<exists>rt. deref c' r = Some rt \<and> m_parent rt = None \<and> \<not> hasEnded rt" .
  qed
  from children_linked_states_changed [OF assms(3) tree_invariantD(3) [OF assms(1)]] 1 2
  show ?thesis by (simp add: tree_invariant_def)
qed

lemma close_current_states_changed:
  "close_current c this = Inr c' \<Longrightarrow> states_changed c c'"
  unfolding states_changed_def
  using close_current_cell [of c this c'] close_current_length [of c this c'] by blast

lemma close_current_root:
  "close_current c this = Inr c' \<Longrightarrow> m_rootPart c' = m_rootPart c"
  by (auto simp: close_current_def PartTrackerBase_close_switch_def leave_Inr
      IndexTracker_close_after_def
      split: option.splits variant.splits sum.splits RunState.splits if_splits)

lemma close_current_cases:
  assumes "close_current c this = Inr c'" and "deref c this = Some t"
  shows "hasEnded t \<and> (c' = c \<or> c' = store c this (t\<lparr>m_runState := Executing\<rparr>)) \<or>
    \<not> hasEnded t \<and> m_parent t \<noteq> None \<and> completedCycle c'"
proof -
  from assms obtain c2 where
    s: "PartTrackerBase_close_switch c this = Inr c2" and
    a: "c' = c2 \<or> IndexTracker_close_after c2 this = Inr c'"
    by (auto simp: close_current_def split: variant.splits sum.splits)
  from switch_Inr [OF s assms(2)] show ?thesis
  proof (elim disjE conjE exE)
    assume e: "hasEnded t" and c2: "c2 = c"
    from a have "c' = c \<or> c' = store c this (t\<lparr>m_runState := Executing\<rparr>)"
    proof
      assume "c' = c2"
      with c2 show ?thesis by simp
    next
      assume "IndexTracker_close_after c2 this = Inr c'"
      from after_Inr [OF this [unfolded c2] assms(2)] show ?thesis by blast
    qed
    with e show ?thesis by blast
  next
    fix s p
    assume ne: "\<not> hasEnded t" and p: "m_parent t = Some p"
      and c2: "c2 = (store c this (t\<lparr>m_runState := s\<rparr>))
                  \<lparr>m_currentPart := Some p, ctx_runState := CompletedCycle\<rparr>"
    from c2 have "completedCycle c2" by (simp add: completedCycle_def)
    with a after_frame [of c2 this c'] have "completedCycle c'"
      by (auto simp: completedCycle_def)
    with ne p show ?thesis by simp
  qed
qed

lemma tree_invariant_close_current:
  assumes inv: "tree_invariant c" and r: "close_current c this = Inr c'"
  shows "tree_invariant c'"
proof -
  from r obtain t where t: "deref c this = Some t"
    by (auto simp: close_current_def split: option.splits)
  from close_current_cases [OF r t] show ?thesis
  proof (elim disjE conjE)
    assume "c' = c"
    with inv show ?thesis by simp
  next
    assume e: "hasEnded t" and c': "c' = store c this (t\<lparr>m_runState := Executing\<rparr>)"
    let ?c = "store c this (t\<lparr>m_runState := Executing\<rparr>)"
    have cell: "\<exists>u. deref c a = Some u \<and> m_parent u' = m_parent u \<and>
        m_children u' = m_children u \<and> (hasEnded u' \<longrightarrow> hasEnded u)"
      if "deref ?c a = Some u'" for a u'
      using that t by (auto simp: deref_store hasEnded_def split: if_splits)
    have fwd: "\<exists>u'. deref ?c a = Some u' \<and> m_parent u' = m_parent u \<and>
        (hasEnded u' \<longrightarrow> hasEnded u)" if "deref c a = Some u" for a u
      using that t by (auto simp: deref_store hasEnded_def dest: deref_Some_length)
    have 1: "chain_open ?c"
    proof (rule chain_openI)
      fix cur a u'
      assume nc: "\<not> completedCycle ?c" and m: "m_currentPart ?c = Some cur"
        and an: "ancestor ?c cur a" and d: "deref ?c a = Some u'"
      from nc have nc': "\<not> completedCycle c" by (simp add: completedCycle_def)
      from m have m': "m_currentPart c = Some cur" by simp
      from an have an': "ancestor c cur a" by (simp add: ancestor_store_state [OF t])
      from cell [OF d] obtain u where u: "deref c a = Some u" "hasEnded u' \<longrightarrow> hasEnded u"
        by blast
      from chain_openD [OF tree_invariantD(1) [OF inv] nc' m' an' u(1)] u(2)
      show "\<not> hasEnded u'" by blast
    qed
    have 2: "root_open ?c"
      unfolding root_open_def
    proof (intro allI impI)
      fix r
      assume "m_rootPart ?c = Some r"
      then have "m_rootPart c = Some r" by simp
      from root_openD [OF tree_invariantD(2) [OF inv] this] obtain rt where
        rt: "deref c r = Some rt" "m_parent rt = None" "\<not> hasEnded rt" by blast
      from fwd [OF rt(1)] rt(2,3)
      show "\<exists>rt. deref ?c r = Some rt \<and> m_parent rt = None \<and> \<not> hasEnded rt"
        by auto
    qed
    have "states_changed c ?c"
      using close_current_states_changed [OF r] c' by simp
    from children_linked_states_changed [OF this tree_invariantD(3) [OF inv]] 1 2 c'
    show ?thesis by (simp add: tree_invariant_def)
  next
    assume ne: "\<not> hasEnded t" and p: "m_parent t \<noteq> None" and cc: "completedCycle c'"
    from inv cc close_current_states_changed [OF r] close_current_root [OF r]
    show ?thesis
    proof (rule tree_invariant_flags)
      fix r0 rt
      assume "deref c r0 = Some rt" and "m_parent rt = None" and h: "\<not> hasEnded rt"
      with t p have "r0 \<noteq> this" by auto
      from close_current_other [OF r this] \<open>deref c r0 = Some rt\<close> \<open>m_parent rt = None\<close> h
      show "\<exists>rt'. deref c' r0 = Some rt' \<and> m_parent rt' = None \<and> \<not> hasEnded rt'"
        by simp
    qed
  qed
qed

lemma tree_invariant_drain:
  "tree_invariant c \<Longrightarrow> drain fuel c this = Some (Inr c1) \<Longrightarrow> tree_invariant c1"
proof (induction fuel arbitrary: c)
  case 0
  then show ?case by (auto simp: drain.simps split: option.splits if_splits)
next
  case (Suc fuel)
  show ?case
  proof (cases "m_currentPart c = Some this")
    case True
    with Suc.prems show ?thesis by (simp add: drain_current)
  next
    case False
    with Suc.prems(2) obtain cur where cur: "m_currentPart c = Some cur" "cur \<noteq> this"
      by (cases "m_currentPart c") (auto simp: drain.simps)
    with Suc.prems(2) obtain c' where
      c': "close_current c cur = Inr c'" and d: "drain fuel c' this = Some (Inr c1)"
      by (auto simp: drain_Suc_step split: sum.splits)
    from Suc.IH [OF tree_invariant_close_current [OF Suc.prems(1) c'] d] show ?thesis .
  qed
qed

lemma tree_invariant_close:
  assumes "tree_invariant c" and "close fuel c this = Some (Inr c')"
  shows "tree_invariant c'"
proof -
  from assms(2) obtain c1 where
    d: "drain fuel c this = Some (Inr c1)" and r: "close_current c1 this = Inr c'"
    by (rule close_split)
  from tree_invariant_close_current [OF tree_invariant_drain [OF assms(1) d] r]
  show ?thesis .
qed

lemma fail_root: "fail c this = Inr c' \<Longrightarrow> m_rootPart c' = m_rootPart c"
  by (auto simp: fail_def markAsNeedingAnotherRun_def leave_Inr
      split: option.splits sum.splits)

lemma tree_invariant_fail:
  assumes inv: "tree_invariant c" and r: "fail c this = Inr c'"
  shows "tree_invariant c'"
proof -
  from r obtain t where t: "deref c this = Some t"
    by (auto simp: fail_def split: option.splits)
  from fail_Inr [OF r t] obtain p where
    p: "m_parent t = Some p" and cc: "completedCycle c'"
    by (auto simp: completedCycle_def)
  have sc: "states_changed c c'"
    unfolding states_changed_def using fail_cell [OF r] fail_length [OF r] by blast
  from inv cc sc fail_root [OF r] show ?thesis
  proof (rule tree_invariant_flags)
    fix r0 rt
    assume rt: "deref c r0 = Some rt" "m_parent rt = None" "\<not> hasEnded rt"
    with t p have ne: "r0 \<noteq> this" by auto
    from fail_cell [OF r rt(1)] obtain s where
      s: "deref c' r0 = Some (rt\<lparr>m_runState := s\<rparr>)"
        "s = m_runState rt \<or> r0 = this \<and> s = Failed \<or> s = NeedsAnotherRun"
      by blast
    with ne rt(3) have "\<not> hasEnded (rt\<lparr>m_runState := s\<rparr>)"
      by (auto simp: hasEnded_def)
    with s(1) rt(2)
    show "\<exists>rt'. deref c' r0 = Some rt' \<and> m_parent rt' = None \<and> \<not> hasEnded rt'"
      by simp
  qed
qed

lemma findChild_child: "findChild c ct name = Some part \<Longrightarrow> part \<in> set (m_children ct)"
  by (auto simp: findChild_def find_Some_iff)

lemma found_parent:
  assumes "tree_invariant c" and "deref c cur = Some ct" and "findChild c ct name = Some part"
    and "deref c part = Some pt"
  shows "m_parent pt = Some cur"
  using children_linkedD [OF tree_invariantD(3) [OF assms(1)] assms(2)
      findChild_child [OF assms(3)]] assms(4)
  by auto

lemma with_child_new_cell:
  assumes "deref c cur = Some ct"
  shows "deref (with_child c cur ct (SectionTracker_new name (Some cur))) (length (heap c))
           = Some (SectionTracker_new name (Some cur))"
    and "deref (with_child c cur ct (IndexTracker_new name (Some cur) sz)) (length (heap c))
           = Some (IndexTracker_new name (Some cur) sz)"
  using assms by (simp_all add: deref_with_child_new)

lemma tree_invariant_SectionTracker_acquire:
  assumes inv: "tree_invariant c" and r: "SectionTracker_acquire c name = Inr (c', a)"
  shows "tree_invariant c'"
proof -
  from r obtain cur ct where cur: "m_currentPart c = Some cur" "deref c cur = Some ct"
    by (auto simp: SectionTracker_acquire_def split: option.splits)
  show ?thesis
  proof (cases "findChild c ct name")
    case None
    let ?new = "SectionTracker_new name (Some cur)"
    let ?c2 = "with_child c cur ct ?new"
    have i2: "tree_invariant ?c2"
      using inv cur by (rule tree_invariant_with_child)
        (simp_all add: SectionTracker_new_def hasEnded_def)
    show ?thesis
    proof (cases "completedCycle c")
      case True
      with r i2 show ?thesis by (simp add: SectionTracker_acquire_new [OF cur None])
    next
      case False
      with r obtain o: "open_part ?c2 (length (heap c)) = Inr c'"
        by (auto simp: SectionTracker_acquire_new [OF cur None] split: sum.splits)
      from i2 _ with_child_new_cell(1) [OF cur(2)] _ _ _ o show ?thesis
        by (rule tree_invariant_open_part)
          (use cur False in \<open>simp_all add: SectionTracker_new_def hasEnded_def completedCycle_def\<close>)
    qed
  next
    case (Some part)
    with r cur obtain pt where pt: "deref c part = Some pt" "variant pt = SectionTracker"
      by (auto simp: SectionTracker_acquire_def split: option.splits variant.splits)
    note f = SectionTracker_acquire_found [OF cur Some pt]
    show ?thesis
    proof (cases "\<not> completedCycle c \<and> \<not> hasEnded pt")
      case False
      with r f inv show ?thesis by auto
    next
      case True
      with r f obtain o: "open_part c part = Inr c'" by (auto split: sum.splits)
      from inv cur(1) pt(1) found_parent [OF inv cur(2) Some pt(1)] _ _ o show ?thesis
        by (rule tree_invariant_open_part) (use True in simp_all)
    qed
  qed
qed

lemma tree_invariant_advance:
  assumes "tree_invariant c" and "deref c part = Some pt"
  shows "tree_invariant (store c part (pt\<lparr>variant := v, m_children := []\<rparr>))"
  using assms by (rule tree_invariant_store) simp_all

lemma tree_invariant_IndexTracker_acquire:
  assumes inv: "tree_invariant c" and r: "IndexTracker_acquire c name sz = Inr (c', a)"
  shows "tree_invariant c'"
proof -
  from r obtain cur ct where cur: "m_currentPart c = Some cur" "deref c cur = Some ct"
    by (auto simp: IndexTracker_acquire_def split: option.splits)
  show ?thesis
  proof (cases "findChild c ct name")
    case None
    let ?new = "IndexTracker_new name (Some cur) sz"
    let ?c2 = "with_child c cur ct ?new"
    let ?n = "length (heap c)"
    have i2: "tree_invariant ?c2"
      using inv cur by (rule tree_invariant_with_child)
        (simp_all add: IndexTracker_new_def hasEnded_def)
    note d2 = with_child_new_cell(2) [OF cur(2), of name sz]
    show ?thesis
    proof (cases "completedCycle c")
      case True
      with r i2 show ?thesis by (simp add: IndexTracker_acquire_new [OF cur None])
    next
      case False
      let ?adv = "?new\<lparr>variant := IndexTracker sz (- 1 + 1), m_children := []\<rparr>"
      let ?c3 = "store ?c2 ?n ?adv"
      have mn: "moveNext ?c2 ?n = Inr ?c3"
        using d2 by (rule moveNext_Index) (simp add: IndexTracker_new_def)
      with False r obtain o: "open_part ?c3 ?n = Inr c'"
        by (auto simp: IndexTracker_acquire_new [OF cur None] split: sum.splits)
      have i3: "tree_invariant ?c3"
        using i2 d2 by (rule tree_invariant_advance)
      have d3: "deref ?c3 ?n = Some ?adv"
        using d2 by (auto simp: deref_store dest: deref_Some_length)
      from i3 _ d3 _ _ _ o show ?thesis
        by (rule tree_invariant_open_part)
          (use cur False in \<open>simp_all add: IndexTracker_new_def hasEnded_def completedCycle_def\<close>)
    qed
  next
    case (Some part)
    with r cur obtain pt sz0 ix where
      pt: "deref c part = Some pt" "variant pt = IndexTracker sz0 ix"
      by (auto simp: IndexTracker_acquire_def split: option.splits variant.splits)
    note par = found_parent [OF inv cur(2) Some pt(1)]
    from cur Some pt show ?thesis
    proof (cases rule: IndexTracker_acquire_found_cases [where sz = sz])
      case skipped
      with r inv show ?thesis by simp
    next
      case reopened
      with r obtain o: "open_part c part = Inr c'" by (auto split: sum.splits)
      from inv cur(1) pt(1) par reopened(2,1) o show ?thesis
        by (rule tree_invariant_open_part)
    next
      case advanced
      let ?adv = "pt\<lparr>variant := IndexTracker sz0 (ix + 1), m_children := []\<rparr>"
      let ?c3 = "store c part ?adv"
      from advanced(4) r obtain o: "open_part ?c3 part = Inr c'" by (auto split: sum.splits)
      have i3: "tree_invariant ?c3"
        using inv pt(1) by (rule tree_invariant_advance)
      have d3: "deref ?c3 part = Some ?adv"
        using pt(1) by (auto simp: deref_store dest: deref_Some_length)
      from i3 _ d3 _ _ _ o show ?thesis
        by (rule tree_invariant_open_part)
          (use cur par advanced in \<open>simp_all add: hasEnded_def completedCycle_def\<close>)
    qed
  qed
qed

lemma tree_invariant_startRun:
  assumes inv: "tree_invariant c"
  shows "tree_invariant (fst (startRun c))"
proof -
  let ?new = "SectionTracker_new ''{root}'' None"
  let ?c = "c\<lparr>heap := heap c @ [?new], m_rootPart := Some (length (heap c)),
             m_currentPart := None, ctx_runState := Ctx_Executing\<rparr>"
  have c: "fst (startRun c) = ?c" by (simp add: startRun_def alloc_def)
  have old: "deref ?c a = Some t" if "deref c a = Some t" for a t
    using that by (auto simp: deref_def nth_append split: if_splits)
  have cell: "t = ?new \<or> deref c a = Some t" if "deref ?c a = Some t" for a t
    using that by (auto simp: deref_def nth_append split: if_splits)
  have 1: "chain_open ?c" by (rule chain_openI) simp
  have 2: "root_open ?c"
    by (auto simp: root_open_def deref_def SectionTracker_new_def hasEnded_def)
  have 3: "children_linked ?c"
    unfolding children_linked_def
  proof (intro allI impI)
    fix a t ch
    assume a: "deref ?c a = Some t" and ch: "ch \<in> set (m_children t)"
    from cell [OF a] ch have "deref c a = Some t" by (auto simp: SectionTracker_new_def)
    from children_linkedD [OF tree_invariantD(3) [OF inv] this ch] old
    show "\<exists>u. deref ?c ch = Some u \<and> m_parent u = Some a" by blast
  qed
  from 1 2 3 c show ?thesis by (simp add: tree_invariant_def)
qed

lemma ancestor_no_parent:
  "ancestor c r a \<Longrightarrow> deref c r = Some rt \<Longrightarrow> m_parent rt = None \<Longrightarrow> a = r"
  by (induction rule: ancestor.induct) auto

lemma tree_invariant_startCycle:
  assumes inv: "tree_invariant c"
  shows "tree_invariant (startCycle c)"
proof -
  let ?c = "startCycle c"
  have h: "heap ?c = heap c" "m_rootPart ?c = m_rootPart c" "m_currentPart ?c = m_rootPart c"
    by (simp_all add: startCycle_def)
  have d: "deref ?c a = deref c a" for a by (simp add: startCycle_def)
  have an: "ancestor ?c a b = ancestor c a b" for a b by (simp add: startCycle_def)
  have 1: "chain_open ?c"
  proof (rule chain_openI)
    fix cur a t
    assume "m_currentPart ?c = Some cur" and a: "ancestor ?c cur a" and t: "deref ?c a = Some t"
    with h have r: "m_rootPart c = Some cur" by simp
    from root_openD [OF tree_invariantD(2) [OF inv] r] obtain rt where
      rt: "deref c cur = Some rt" "m_parent rt = None" "\<not> hasEnded rt" by blast
    from a have "ancestor c cur a" by (simp add: an)
    from ancestor_no_parent [OF this rt(1,2)] t rt show "\<not> hasEnded t" by (simp add: d)
  qed
  from tree_invariantD(2,3) [OF inv] have "root_open ?c" "children_linked ?c"
    by (simp_all add: root_open_def children_linked_def d h)
  with 1 show ?thesis by (simp add: tree_invariant_def)
qed

lemma tree_invariant_endRun:
  assumes inv: "tree_invariant c"
  shows "tree_invariant (endRun c)"
proof -
  have d: "deref (endRun c) a = deref c a" for a by (simp add: endRun_def)
  have 1: "chain_open (endRun c)" by (rule chain_openI) (simp add: endRun_def)
  have 2: "root_open (endRun c)" by (simp add: root_open_def endRun_def)
  from tree_invariantD(3) [OF inv] have "children_linked (endRun c)"
    by (simp add: children_linked_def d)
  with 1 2 show ?thesis by (simp add: tree_invariant_def)
qed

lemma tree_invariant_perform:
  assumes "tree_invariant c" and "perform fuel x c = Some (Inr c')"
  shows "tree_invariant c'"
proof (cases x)
  case StartRun
  with assms tree_invariant_startRun [of c] show ?thesis by auto
next
  case EndRun
  with assms tree_invariant_endRun [of c] show ?thesis by auto
next
  case StartCycle
  with assms tree_invariant_startCycle [of c] show ?thesis by auto
next
  case (AcquireSection name)
  with assms show ?thesis
    by (auto split: sum.splits dest: tree_invariant_SectionTracker_acquire)
next
  case (AcquireIndex name sz)
  with assms show ?thesis
    by (auto split: sum.splits dest: tree_invariant_IndexTracker_acquire)
next
  case (Close a)
  with assms show ?thesis by (auto dest: tree_invariant_close)
next
  case (Fail a)
  with assms show ?thesis by (auto dest: tree_invariant_fail)
qed

lemma tree_invariant_run:
  "tree_invariant c \<Longrightarrow> run fuel xs c = Some (Inr c') \<Longrightarrow> tree_invariant c'"
proof (induction xs arbitrary: c)
  case Nil
  then show ?case by simp
next
  case (Cons x xs)
  from Cons.prems(2) obtain c1 where
    p: "perform fuel x c = Some (Inr c1)" and r: "run fuel xs c1 = Some (Inr c')"
    by (auto split: option.splits sum.splits)
  from Cons.IH [OF tree_invariant_perform [OF Cons.prems(1) p] r] show ?case .
qed

lemma reachable_tree_invariant:
  assumes "reachable c"
  shows "tree_invariant c"
proof -
  from assms obtain fuel xs where r: "run fuel xs TrackerContext_new = Some (Inr c)"
    by (auto simp: reachable_def)
  have "tree_invariant TrackerContext_new"
    by (simp add: tree_invariant_def chain_open_def root_open_def children_linked_def
        TrackerContext_new_def deref_def)
  from tree_invariant_run [OF this r] show ?thesis .
qed

section \<open>A tracker that has ended stays as it is\<close>

text \<open>
  In a context that satisfies the invariants, no call changes the run-state of a tracker
  that has ended, with two exceptions: \<^verbatim>\<open>fail\<close> on a completed tracker itself, and \<^verbatim>\<open>fail\<close>
  on one of its children (which marks it \<open>NeedsAnotherRun\<close>).
\<close>

lemma open_part_ended:
  assumes inv: "tree_invariant c" and cur: "m_currentPart c = Some cur"
    and pt: "deref c part = Some pt" "m_parent pt = Some cur" "\<not> hasEnded pt"
    and nc: "\<not> completedCycle c"
    and o: "open_part c part = Inr c'"
    and u: "deref c b = Some u" "hasEnded u"
  shows "deref c' b = Some u"
proof -
  from pt(1,3) u have ne: "b \<noteq> part" by auto
  from open_part_cell [OF o pt(1) u(1)] ne pt(2) obtain s where
    s: "deref c' b = Some (u\<lparr>m_runState := s\<rparr>)"
      "s = m_runState u \<or> ancestor c cur b"
    by auto
  from chain_openD [OF tree_invariantD(1) [OF inv] nc cur _ u(1)] u(2)
  have "\<not> ancestor c cur b" by blast
  with s show ?thesis by simp
qed

lemma SectionTracker_acquire_ended:
  assumes inv: "tree_invariant c" and r: "SectionTracker_acquire c name = Inr (c', a)"
    and u: "deref c b = Some u" "hasEnded u"
  shows "\<exists>u'. deref c' b = Some u' \<and> m_runState u' = m_runState u \<and> variant u' = variant u"
proof -
  from r obtain cur ct where cur: "m_currentPart c = Some cur" "deref c cur = Some ct"
    by (auto simp: SectionTracker_acquire_def split: option.splits)
  show ?thesis
  proof (cases "findChild c ct name")
    case None
    let ?new = "SectionTracker_new name (Some cur)"
    let ?c2 = "with_child c cur ct ?new"
    define u2 where "u2 = (if b = cur then ct\<lparr>m_children := m_children ct @ [length (heap c)]\<rparr>
                           else u)"
    from deref_with_child_old [OF cur(2) u(1), of ?new] have d2: "deref ?c2 b = Some u2"
      by (simp add: u2_def)
    from cur(2) u have u2: "m_runState u2 = m_runState u" "variant u2 = variant u" "hasEnded u2"
      by (auto simp: u2_def hasEnded_def)
    have i2: "tree_invariant ?c2"
      using inv cur by (rule tree_invariant_with_child)
        (simp_all add: SectionTracker_new_def hasEnded_def)
    show ?thesis
    proof (cases "completedCycle c")
      case True
      with r d2 u2 show ?thesis by (simp add: SectionTracker_acquire_new [OF cur None])
    next
      case False
      with r obtain o: "open_part ?c2 (length (heap c)) = Inr c'"
        by (auto simp: SectionTracker_acquire_new [OF cur None] split: sum.splits)
      have "deref c' b = Some u2"
        using i2 _ with_child_new_cell(1) [OF cur(2)] _ _ _ o d2 u2(3)
        by (rule open_part_ended)
          (use cur False in \<open>simp_all add: SectionTracker_new_def hasEnded_def completedCycle_def\<close>)
      with u2 show ?thesis by simp
    qed
  next
    case (Some part)
    with r cur obtain pt where pt: "deref c part = Some pt" "variant pt = SectionTracker"
      by (auto simp: SectionTracker_acquire_def split: option.splits variant.splits)
    note f = SectionTracker_acquire_found [OF cur Some pt]
    show ?thesis
    proof (cases "\<not> completedCycle c \<and> \<not> hasEnded pt")
      case False
      with r f u show ?thesis by auto
    next
      case True
      with r f obtain o: "open_part c part = Inr c'" by (auto split: sum.splits)
      have "deref c' b = Some u"
        using inv cur(1) pt(1) found_parent [OF inv cur(2) Some pt(1)] _ _ o u
        by (rule open_part_ended) (use True in simp_all)
      then show ?thesis by simp
    qed
  qed
qed

lemma IndexTracker_acquire_ended:
  assumes inv: "tree_invariant c" and r: "IndexTracker_acquire c name sz = Inr (c', a)"
    and u: "deref c b = Some u" "hasEnded u"
  shows "\<exists>u'. deref c' b = Some u' \<and> m_runState u' = m_runState u \<and> variant u' = variant u"
proof -
  from r obtain cur ct where cur: "m_currentPart c = Some cur" "deref c cur = Some ct"
    by (auto simp: IndexTracker_acquire_def split: option.splits)
  show ?thesis
  proof (cases "findChild c ct name")
    case None
    let ?new = "IndexTracker_new name (Some cur) sz"
    let ?c2 = "with_child c cur ct ?new"
    let ?n = "length (heap c)"
    define u2 where "u2 = (if b = cur then ct\<lparr>m_children := m_children ct @ [length (heap c)]\<rparr>
                           else u)"
    from deref_with_child_old [OF cur(2) u(1), of ?new] have d2: "deref ?c2 b = Some u2"
      by (simp add: u2_def)
    from cur(2) u have u2: "m_runState u2 = m_runState u" "variant u2 = variant u" "hasEnded u2"
      by (auto simp: u2_def hasEnded_def)
    have i2: "tree_invariant ?c2"
      using inv cur by (rule tree_invariant_with_child)
        (simp_all add: IndexTracker_new_def hasEnded_def)
    note n2 = with_child_new_cell(2) [OF cur(2), of name sz]
    show ?thesis
    proof (cases "completedCycle c")
      case True
      with r d2 u2 show ?thesis by (simp add: IndexTracker_acquire_new [OF cur None])
    next
      case False
      let ?adv = "?new\<lparr>variant := IndexTracker sz (- 1 + 1), m_children := []\<rparr>"
      let ?c3 = "store ?c2 ?n ?adv"
      have mn: "moveNext ?c2 ?n = Inr ?c3"
        using n2 by (rule moveNext_Index) (simp add: IndexTracker_new_def)
      with False r obtain o: "open_part ?c3 ?n = Inr c'"
        by (auto simp: IndexTracker_acquire_new [OF cur None] split: sum.splits)
      have i3: "tree_invariant ?c3"
        using i2 n2 by (rule tree_invariant_advance)
      have n3: "deref ?c3 ?n = Some ?adv"
        using n2 by (auto simp: deref_store dest: deref_Some_length)
      from u(1) have "b \<noteq> ?n" by (auto dest: deref_Some_length)
      with d2 have d3: "deref ?c3 b = Some u2" by (simp add: deref_store)
      have "deref c' b = Some u2"
        using i3 _ n3 _ _ _ o d3 u2(3)
        by (rule open_part_ended)
          (use cur False in \<open>simp_all add: IndexTracker_new_def hasEnded_def completedCycle_def\<close>)
      with u2 show ?thesis by simp
    qed
  next
    case (Some part)
    with r cur obtain pt sz0 ix where
      pt: "deref c part = Some pt" "variant pt = IndexTracker sz0 ix"
      by (auto simp: IndexTracker_acquire_def split: option.splits variant.splits)
    note par = found_parent [OF inv cur(2) Some pt(1)]
    from cur Some pt show ?thesis
    proof (cases rule: IndexTracker_acquire_found_cases [where sz = sz])
      case skipped
      with r u show ?thesis by simp
    next
      case reopened
      with r obtain o: "open_part c part = Inr c'" by (auto split: sum.splits)
      have "deref c' b = Some u"
        using inv cur(1) pt(1) par reopened(2,1) o u by (rule open_part_ended)
      then show ?thesis by simp
    next
      case advanced
      let ?adv = "pt\<lparr>variant := IndexTracker sz0 (ix + 1), m_children := []\<rparr>"
      let ?c3 = "store c part ?adv"
      from advanced(4) r obtain o: "open_part ?c3 part = Inr c'" by (auto split: sum.splits)
      have i3: "tree_invariant ?c3"
        using inv pt(1) by (rule tree_invariant_advance)
      have n3: "deref ?c3 part = Some ?adv"
        using pt(1) by (auto simp: deref_store dest: deref_Some_length)
      from pt(1) advanced(2) u have "b \<noteq> part" by auto
      with u(1) have d3: "deref ?c3 b = Some u" by (simp add: deref_store)
      have "deref c' b = Some u"
        using i3 _ n3 _ _ _ o d3 u(2)
        by (rule open_part_ended)
          (use cur par advanced in \<open>simp_all add: hasEnded_def completedCycle_def\<close>)
      then show ?thesis by simp
    qed
  qed
qed

lemma ended_stays:
  assumes inv: "tree_invariant c" and ii: "index_invariant c"
    and u: "deref c b = Some u" "hasEnded u"
    and p: "perform fuel x c = Some (Inr c')"
  shows "(\<exists>u'. deref c' b = Some u' \<and> m_runState u' = m_runState u \<and> variant u' = variant u) \<or>
    x = Fail b \<and> m_runState u = CompletedSuccessfully \<or>
    (\<exists>a ua. x = Fail a \<and> deref c a = Some ua \<and> m_parent ua = Some b)"
proof (cases x)
  case StartRun
  with p have "c' = fst (startRun c)" by auto
  with u(1) have "deref c' b = Some u"
    by (auto simp: startRun_def alloc_def deref_def nth_append split: if_splits)
  then show ?thesis by simp
next
  case EndRun
  with p u(1) have "deref c' b = Some u" by (auto simp: endRun_def)
  then show ?thesis by simp
next
  case StartCycle
  with p u(1) have "deref c' b = Some u" by (auto simp: startCycle_def)
  then show ?thesis by simp
next
  case (AcquireSection name)
  with p obtain a where "SectionTracker_acquire c name = Inr (c', a)"
    by (auto split: sum.splits)
  from SectionTracker_acquire_ended [OF inv this u] show ?thesis by blast
next
  case (AcquireIndex name sz)
  with p obtain a where "IndexTracker_acquire c name sz = Inr (c', a)"
    by (auto split: sum.splits)
  from IndexTracker_acquire_ended [OF inv this u] show ?thesis by blast
next
  case (Close a)
  with p have "close fuel c a = Some (Inr c')" by simp
  from close_cell [OF this u(1)] u(2) index_invariant_deref [OF ii u(1)]
  obtain s where "deref c' b = Some (u\<lparr>m_runState := s\<rparr>)" "s = m_runState u" by blast
  then show ?thesis by simp
next
  case (Fail a)
  with p have f: "fail c a = Inr c'" by simp
  from fail_cell [OF f u(1)] obtain s where
    s: "deref c' b = Some (u\<lparr>m_runState := s\<rparr>)"
      "s = m_runState u \<or> b = a \<and> s = Failed \<or>
       (\<exists>ua. deref c a = Some ua \<and> m_parent ua = Some b) \<and> s = NeedsAnotherRun"
    by blast
  show ?thesis
  proof (cases "\<exists>ua. deref c a = Some ua \<and> m_parent ua = Some b")
    case True
    with Fail show ?thesis by blast
  next
    case False
    with s(2) have "s = m_runState u \<or> b = a \<and> s = Failed" by blast
    then show ?thesis
    proof
      assume "s = m_runState u"
      with s(1) show ?thesis by simp
    next
      assume a: "b = a \<and> s = Failed"
      show ?thesis
      proof (cases "m_runState u = Failed")
        case True
        with a s(1) show ?thesis by simp
      next
        case False
        with u(2) have "m_runState u = CompletedSuccessfully" by (simp add: hasEnded_def)
        with a Fail show ?thesis by simp
      qed
    qed
  qed
qed

section \<open>The index of an index tracker, call by call\<close>






section \<open>An acquire that finds a tracker that has not ended\<close>

lemma open_part_opened:
  assumes "open_part c part = Inr c'"
  shows "m_currentPart c' = Some part \<and> (\<exists>u'. deref c' part = Some u' \<and> isOpen u')"
proof -
  from assms obtain pt where pt: "deref c part = Some pt"
    by (auto simp: open_part_def split: option.splits)
  from open_part_cell [OF assms pt pt] obtain s where
    "deref c' part = Some (pt\<lparr>m_runState := s\<rparr>)" "s = Executing \<or> s = ExecutingChildren"
    by auto
  then have "\<exists>u'. deref c' part = Some u' \<and> isOpen u'"
    by (auto simp: isOpen_def hasStarted_def hasEnded_def)
  with open_part_fields(1) [OF assms] show ?thesis by simp
qed

lemma acquire_opens:
  assumes cur: "m_currentPart c = Some cur" "deref c cur = Some ct"
    and f: "findChild c ct name = Some part"
    and pt: "deref c part = Some pt" "\<not> hasEnded pt"
    and nc: "\<not> completedCycle c"
    and r: "SectionTracker_acquire c name = Inr (c', a) \<or>
            (\<exists>sz. IndexTracker_acquire c name sz = Inr (c', a))"
  shows "a = part \<and> m_currentPart c' = Some part \<and> (\<exists>u'. deref c' part = Some u' \<and> isOpen u')"
  using r
proof (elim disjE exE)
  assume r: "SectionTracker_acquire c name = Inr (c', a)"
  with cur f pt(1) have v: "variant pt = SectionTracker"
    by (auto simp: SectionTracker_acquire_def split: variant.splits)
  from r pt(2) nc obtain "open_part c part = Inr c'" and "a = part"
    unfolding SectionTracker_acquire_found [OF cur f pt(1) v]
    by (auto split: sum.splits)
  with open_part_opened [of c part c'] show ?thesis by simp
next
  fix sz
  assume r: "IndexTracker_acquire c name sz = Inr (c', a)"
  with cur f pt(1) obtain sz0 ix where v: "variant pt = IndexTracker sz0 ix"
    by (auto simp: IndexTracker_acquire_def split: variant.splits)
  from cur f pt(1) v show ?thesis
  proof (cases rule: IndexTracker_acquire_found_cases [where sz = sz])
    case skipped
    with pt(2) nc show ?thesis by simp
  next
    case reopened
    with r obtain "open_part c part = Inr c'" and "a = part" by (auto split: sum.splits)
    with open_part_opened [of c part c'] show ?thesis by simp
  next
    case advanced
    let ?c3 = "store c part (pt\<lparr>variant := IndexTracker sz0 (ix + 1), m_children := []\<rparr>)"
    from advanced(4) r obtain "open_part ?c3 part = Inr c'" and "a = part"
      by (auto split: sum.splits)
    with open_part_opened [of ?c3 part c'] show ?thesis by simp
  qed
qed

lemma failed_stays:
  assumes "reachable c" and "deref c b = Some u" and "m_runState u = Failed"
    and "perform fuel x c = Some (Inr c')"
  shows "(\<exists>u'. deref c' b = Some u' \<and> m_runState u' = Failed) \<or>
    (\<exists>a ua. x = Fail a \<and> deref c a = Some ua \<and> m_parent ua = Some b)"
proof -
  from assms(3) have "hasEnded u" by (simp add: hasEnded_def)
  from ended_stays [OF reachable_tree_invariant [OF assms(1)]
      reachable_index_invariant [OF assms(1)] assms(2) this assms(4)] assms(3)
  show ?thesis by auto
qed

section \<open>The generator with its inner section: the contexts are reached\<close>







section \<open>C1: how close resolves the state of its tracker\<close>

text \<open>
  Claim C1 says of every tracker on which \<^verbatim>\<open>close\<close> is called that, after the loop,
  \<open>Executing\<close> becomes \<open>CompletedSuccessfully\<close>, \<open>ExecutingChildren\<close> becomes
  \<open>CompletedSuccessfully\<close> when there is no child or the last child has ended and stays
  otherwise, \<open>NeedsAnotherRun\<close> becomes \<open>Executing\<close>, and that in each case the current
  tracker is then the parent and the cycle is marked completed.  This is what
  \<^verbatim>\<open>PartTrackerBase::close\<close> does on a tracker that has a parent.  It fails in two places:
  \<^item> \<^verbatim>\<open>close\<close> is virtual, and \<^verbatim>\<open>IndexTracker::close\<close> puts a tracker that the base function has
    just completed back to \<open>Executing\<close> while \<open>index < size - 1\<close>.  Below, \<open>G1\<close> of size 2
    (address 3) is open, current and \<open>Executing\<close> at index 0; after \<^verbatim>\<open>g1.close()\<close> it is
    \<open>Executing\<close>, not \<open>CompletedSuccessfully\<close>.
  \<^item> the root has no parent, and \<^verbatim>\<open>moveToParent\<close> asserts that there is one.  Below, the
    root (address 0) is current and \<open>ExecutingChildren\<close>, and its last child \<open>Testcase\<close> has
    ended; \<^verbatim>\<open>close\<close> on it is stopped by the assertion: the current tracker is not moved
    and the cycle is not marked completed.
\<close>

theorem close_resolves_own_state_counterexample:
  "run 0 (open_S1 @ [AcquireIndex ''G1'' 2]) TrackerContext_new = Some (Inr ctx_G1_open) \<and>
   m_currentPart ctx_G1_open = Some 3 \<and>
   variant (heap ctx_G1_open ! 3) = IndexTracker 2 0 \<and>
   m_runState (heap ctx_G1_open ! 3) = Executing \<and>
   close 0 ctx_G1_open 3 = Some (Inr ctx_G1_closed_at_0) \<and>
   m_runState (heap ctx_G1_closed_at_0 ! 3) = Executing \<and>
   run 0 (open_S1 @ [Close 2, Close 1]) TrackerContext_new = Some (Inr ctx_Testcase_closed) \<and>
   m_currentPart ctx_Testcase_closed = Some 0 \<and>
   m_parent (heap ctx_Testcase_closed ! 0) = None \<and>
   m_runState (heap ctx_Testcase_closed ! 0) = ExecutingChildren \<and>
   last (m_children (heap ctx_Testcase_closed ! 0)) = 1 \<and>
   hasEnded (heap ctx_Testcase_closed ! 1) \<and>
   close 0 ctx_Testcase_closed 0 = Some (Inl AssertionFailed)"
  by code_simp

text \<open>
  Claim C1 as amended.  Let the loop at the start of \<^verbatim>\<open>close\<close> have finished with the
  context \<open>c1\<close>, in which the cell of the tracker holds \<open>t\<close>.

  If the tracker has a parent \<open>p\<close>, \<^verbatim>\<open>PartTrackerBase::close\<close> resolves the state as the claim
  says: \<open>Executing\<close> becomes \<open>CompletedSuccessfully\<close>; \<open>ExecutingChildren\<close> becomes
  \<open>CompletedSuccessfully\<close> when there is no child or the last child has ended, and stays
  otherwise; \<open>NeedsAnotherRun\<close> becomes \<open>Executing\<close>; in each case the current tracker is then
  \<open>p\<close> and the cycle is marked completed, and nothing else in the context changes.  The
  virtual \<^verbatim>\<open>close\<close> does the same, except that on an index tracker with
  \<open>index < size - 1\<close> the state that the base function has turned into
  \<open>CompletedSuccessfully\<close> is \<open>Executing\<close> in the end.

  If the tracker has no parent, \<^verbatim>\<open>close\<close> in any of these three states is stopped by the
  assertion of \<^verbatim>\<open>moveToParent\<close>.
\<close>

theorem close_resolves_own_state:
  assumes "drain fuel c this = Some (Inr c1)"
    and "deref c1 this = Some t"
  shows
    "(m_parent t = Some p \<longrightarrow> m_runState t = Executing \<longrightarrow>
        PartTrackerBase_close fuel c this =
          Some (Inr ((store c1 this (t\<lparr>m_runState := CompletedSuccessfully\<rparr>))
                  \<lparr>m_currentPart := Some p, ctx_runState := CompletedCycle\<rparr>)) \<and>
        close fuel c this =
          Some (Inr ((store c1 this
                       (t\<lparr>m_runState :=
                            (case variant t of
                               SectionTracker \<Rightarrow> CompletedSuccessfully
                             | IndexTracker N ix \<Rightarrow>
                                 if ix < N - 1 then Executing else CompletedSuccessfully)\<rparr>))
                  \<lparr>m_currentPart := Some p, ctx_runState := CompletedCycle\<rparr>))) \<and>
     (m_parent t = Some p \<longrightarrow> m_runState t = ExecutingChildren \<longrightarrow> m_children t = [] \<longrightarrow>
        PartTrackerBase_close fuel c this =
          Some (Inr ((store c1 this (t\<lparr>m_runState := CompletedSuccessfully\<rparr>))
                  \<lparr>m_currentPart := Some p, ctx_runState := CompletedCycle\<rparr>)) \<and>
        close fuel c this =
          Some (Inr ((store c1 this
                       (t\<lparr>m_runState :=
                            (case variant t of
                               SectionTracker \<Rightarrow> CompletedSuccessfully
                             | IndexTracker N ix \<Rightarrow>
                                 if ix < N - 1 then Executing else CompletedSuccessfully)\<rparr>))
                  \<lparr>m_currentPart := Some p, ctx_runState := CompletedCycle\<rparr>))) \<and>
     (m_parent t = Some p \<longrightarrow> m_runState t = ExecutingChildren \<longrightarrow> m_children t \<noteq> [] \<longrightarrow>
      deref c1 (last (m_children t)) = Some k \<longrightarrow> hasEnded k \<longrightarrow>
        PartTrackerBase_close fuel c this =
          Some (Inr ((store c1 this (t\<lparr>m_runState := CompletedSuccessfully\<rparr>))
                  \<lparr>m_currentPart := Some p, ctx_runState := CompletedCycle\<rparr>)) \<and>
        close fuel c this =
          Some (Inr ((store c1 this
                       (t\<lparr>m_runState :=
                            (case variant t of
                               SectionTracker \<Rightarrow> CompletedSuccessfully
                             | IndexTracker N ix \<Rightarrow>
                                 if ix < N - 1 then Executing else CompletedSuccessfully)\<rparr>))
                  \<lparr>m_currentPart := Some p, ctx_runState := CompletedCycle\<rparr>))) \<and>
     (m_parent t = Some p \<longrightarrow> m_runState t = ExecutingChildren \<longrightarrow> m_children t \<noteq> [] \<longrightarrow>
      deref c1 (last (m_children t)) = Some k \<longrightarrow> \<not> hasEnded k \<longrightarrow>
        PartTrackerBase_close fuel c this =
          Some (Inr (c1\<lparr>m_currentPart := Some p, ctx_runState := CompletedCycle\<rparr>)) \<and>
        close fuel c this =
          Some (Inr (c1\<lparr>m_currentPart := Some p, ctx_runState := CompletedCycle\<rparr>))) \<and>
     (m_parent t = Some p \<longrightarrow> m_runState t = NeedsAnotherRun \<longrightarrow>
        PartTrackerBase_close fuel c this =
          Some (Inr ((store c1 this (t\<lparr>m_runState := Executing\<rparr>))
                  \<lparr>m_currentPart := Some p, ctx_runState := CompletedCycle\<rparr>)) \<and>
        close fuel c this =
          Some (Inr ((store c1 this (t\<lparr>m_runState := Executing\<rparr>))
                  \<lparr>m_currentPart := Some p, ctx_runState := CompletedCycle\<rparr>))) \<and>
     (m_parent t = None \<longrightarrow>
      (m_runState t = Executing \<or> m_runState t = NeedsAnotherRun \<or>
       m_runState t = ExecutingChildren \<and>
         (m_children t = [] \<or> deref c1 (last (m_children t)) \<noteq> None)) \<longrightarrow>
        PartTrackerBase_close fuel c this = Some (Inl AssertionFailed) \<and>
        close fuel c this = Some (Inl AssertionFailed))"
proof -
  note base = PartTrackerBase_close_drained [OF assms(1)]
  note virt = close_after_drain [OF assms]
  have 1: "m_parent t = Some p \<longrightarrow> m_runState t = Executing \<longrightarrow>
        PartTrackerBase_close fuel c this =
          Some (Inr ((store c1 this (t\<lparr>m_runState := CompletedSuccessfully\<rparr>))
                  \<lparr>m_currentPart := Some p, ctx_runState := CompletedCycle\<rparr>)) \<and>
        close fuel c this =
          Some (Inr ((store c1 this
                       (t\<lparr>m_runState :=
                            (case variant t of
                               SectionTracker \<Rightarrow> CompletedSuccessfully
                             | IndexTracker N ix \<Rightarrow>
                                 if ix < N - 1 then Executing else CompletedSuccessfully)\<rparr>))
                  \<lparr>m_currentPart := Some p, ctx_runState := CompletedCycle\<rparr>))"
    using switch_completes [OF assms(2), of p] close_current_completes [OF assms(2), of p]
    by (simp add: base virt)
  have 2: "m_parent t = Some p \<longrightarrow> m_runState t = ExecutingChildren \<longrightarrow> m_children t = [] \<longrightarrow>
        PartTrackerBase_close fuel c this =
          Some (Inr ((store c1 this (t\<lparr>m_runState := CompletedSuccessfully\<rparr>))
                  \<lparr>m_currentPart := Some p, ctx_runState := CompletedCycle\<rparr>)) \<and>
        close fuel c this =
          Some (Inr ((store c1 this
                       (t\<lparr>m_runState :=
                            (case variant t of
                               SectionTracker \<Rightarrow> CompletedSuccessfully
                             | IndexTracker N ix \<Rightarrow>
                                 if ix < N - 1 then Executing else CompletedSuccessfully)\<rparr>))
                  \<lparr>m_currentPart := Some p, ctx_runState := CompletedCycle\<rparr>))"
    using switch_completes [OF assms(2), of p] close_current_completes [OF assms(2), of p]
    by (simp add: base virt)
  have 3: "m_parent t = Some p \<longrightarrow> m_runState t = ExecutingChildren \<longrightarrow> m_children t \<noteq> [] \<longrightarrow>
      deref c1 (last (m_children t)) = Some k \<longrightarrow> hasEnded k \<longrightarrow>
        PartTrackerBase_close fuel c this =
          Some (Inr ((store c1 this (t\<lparr>m_runState := CompletedSuccessfully\<rparr>))
                  \<lparr>m_currentPart := Some p, ctx_runState := CompletedCycle\<rparr>)) \<and>
        close fuel c this =
          Some (Inr ((store c1 this
                       (t\<lparr>m_runState :=
                            (case variant t of
                               SectionTracker \<Rightarrow> CompletedSuccessfully
                             | IndexTracker N ix \<Rightarrow>
                                 if ix < N - 1 then Executing else CompletedSuccessfully)\<rparr>))
                  \<lparr>m_currentPart := Some p, ctx_runState := CompletedCycle\<rparr>))"
    using switch_completes [OF assms(2), of p] close_current_completes [OF assms(2), of p]
    by (simp add: base virt)
  have 4: "m_parent t = Some p \<longrightarrow> m_runState t = ExecutingChildren \<longrightarrow> m_children t \<noteq> [] \<longrightarrow>
      deref c1 (last (m_children t)) = Some k \<longrightarrow> \<not> hasEnded k \<longrightarrow>
        PartTrackerBase_close fuel c this =
          Some (Inr (c1\<lparr>m_currentPart := Some p, ctx_runState := CompletedCycle\<rparr>)) \<and>
        close fuel c this =
          Some (Inr (c1\<lparr>m_currentPart := Some p, ctx_runState := CompletedCycle\<rparr>))"
    using close_current_waiting [OF assms(2), of k p] assms(2)
    by (simp add: base virt PartTrackerBase_close_switch_def leave_parent)
  have 5: "m_parent t = Some p \<longrightarrow> m_runState t = NeedsAnotherRun \<longrightarrow>
        PartTrackerBase_close fuel c this =
          Some (Inr ((store c1 this (t\<lparr>m_runState := Executing\<rparr>))
                  \<lparr>m_currentPart := Some p, ctx_runState := CompletedCycle\<rparr>)) \<and>
        close fuel c this =
          Some (Inr ((store c1 this (t\<lparr>m_runState := Executing\<rparr>))
                  \<lparr>m_currentPart := Some p, ctx_runState := CompletedCycle\<rparr>))"
    using close_current_NeedsAnotherRun [OF assms(2)] assms(2)
    by (simp add: base virt PartTrackerBase_close_switch_def leave_store_parent)
  have 6: "m_parent t = None \<longrightarrow>
      (m_runState t = Executing \<or> m_runState t = NeedsAnotherRun \<or>
       m_runState t = ExecutingChildren \<and>
         (m_children t = [] \<or> deref c1 (last (m_children t)) \<noteq> None)) \<longrightarrow>
        PartTrackerBase_close fuel c this = Some (Inl AssertionFailed) \<and>
        close fuel c this = Some (Inl AssertionFailed)"
    using switch_no_parent [OF assms(2)] close_current_no_parent [OF assms(2)]
    by (simp add: base virt)
  from 1 2 3 4 5 6 show ?thesis by (intro conjI)
qed

theorem close_resolves_own_state_witness:
  "drain 1 ctx_S1_open 1 = Some (Inr ctx_S1_closed) \<and>
   deref ctx_S1_closed 1 = Some (heap ctx_S1_closed ! 1) \<and>
   m_parent (heap ctx_S1_closed ! 1) = Some 0 \<and>
   m_runState (heap ctx_S1_closed ! 1) = ExecutingChildren \<and>
   m_children (heap ctx_S1_closed ! 1) \<noteq> [] \<and>
   deref ctx_S1_closed (last (m_children (heap ctx_S1_closed ! 1)))
     = Some (heap ctx_S1_closed ! 2) \<and>
   hasEnded (heap ctx_S1_closed ! 2) \<and>
   close 1 ctx_S1_open 1 = Some (Inr ctx_Testcase_closed) \<and>
   m_runState (heap ctx_S1_open ! 2) = Executing \<and>
   close 0 ctx_S1_open 2 = Some (Inr ctx_S1_closed) \<and>
   m_runState (heap ctx_S1_failed ! 1) = NeedsAnotherRun \<and>
   close 0 ctx_S1_failed 1 = Some (Inr ctx_Testcase_recovered) \<and>
   m_runState (heap ctx_S2_seen ! 1) = ExecutingChildren \<and>
   \<not> hasEnded (heap ctx_S2_seen ! 3) \<and>
   close 0 ctx_S2_seen 1 = Some (Inr (ctx_S2_seen\<lparr>m_currentPart := Some 0\<rparr>)) \<and>
   variant (heap ctx_G1_open ! 3) = IndexTracker 2 0 \<and>
   m_runState (heap ctx_G1_open ! 3) = Executing \<and>
   PartTrackerBase_close 0 ctx_G1_open 3 =
     Some (Inr (store ctx_G1_closed_at_0 3
                 ((heap ctx_G1_open ! 3)\<lparr>m_runState := CompletedSuccessfully\<rparr>))) \<and>
   close 0 ctx_G1_open 3 = Some (Inr ctx_G1_closed_at_0) \<and>
   m_parent (heap ctx_Testcase_closed ! 0) = None \<and>
   m_runState (heap ctx_Testcase_closed ! 0) = ExecutingChildren \<and>
   close 0 ctx_Testcase_closed 0 = Some (Inl AssertionFailed)"
proof -
  \<comment> \<open>\<open>Testcase\<close> is closed while \<open>S1\<close> is current: the loop closes \<open>S1\<close> first.\<close>
  have d: "drain 1 ctx_S1_open 1 = Some (Inr ctx_S1_closed)"
    and t: "deref ctx_S1_closed 1 = Some (heap ctx_S1_closed ! 1)"
    and p: "m_parent (heap ctx_S1_closed ! 1) = Some 0"
    and s: "m_runState (heap ctx_S1_closed ! 1) = ExecutingChildren"
    and n: "m_children (heap ctx_S1_closed ! 1) \<noteq> []"
    and k: "deref ctx_S1_closed (last (m_children (heap ctx_S1_closed ! 1)))
              = Some (heap ctx_S1_closed ! 2)"
    and e: "hasEnded (heap ctx_S1_closed ! 2)"
    and v: "variant (heap ctx_S1_closed ! 1) = SectionTracker"
    and r: "(store ctx_S1_closed 1
               ((heap ctx_S1_closed ! 1)\<lparr>m_runState := CompletedSuccessfully\<rparr>))
              \<lparr>m_currentPart := Some 0, ctx_runState := CompletedCycle\<rparr> = ctx_Testcase_closed"
    by code_simp+
  from close_resolves_own_state [OF d t, of 0 "heap ctx_S1_closed ! 2"] p s n k e v r
  have 1: "close 1 ctx_S1_open 1 = Some (Inr ctx_Testcase_closed)"
    by simp
  \<comment> \<open>\<open>S1\<close> is closed while it is executing.\<close>
  have d2: "drain 0 ctx_S1_open 2 = Some (Inr ctx_S1_open)"
    and t2: "deref ctx_S1_open 2 = Some (heap ctx_S1_open ! 2)"
    and p2: "m_parent (heap ctx_S1_open ! 2) = Some 1"
    and s2: "m_runState (heap ctx_S1_open ! 2) = Executing"
    and v2: "variant (heap ctx_S1_open ! 2) = SectionTracker"
    and r2: "(store ctx_S1_open 2
               ((heap ctx_S1_open ! 2)\<lparr>m_runState := CompletedSuccessfully\<rparr>))
              \<lparr>m_currentPart := Some 1, ctx_runState := CompletedCycle\<rparr> = ctx_S1_closed"
    by code_simp+
  from close_resolves_own_state [OF d2 t2, of 1] p2 s2 v2 r2
  have 2: "close 0 ctx_S1_open 2 = Some (Inr ctx_S1_closed)"
    by simp
  \<comment> \<open>\<open>Testcase\<close> is closed after its section has failed.\<close>
  have d3: "drain 0 ctx_S1_failed 1 = Some (Inr ctx_S1_failed)"
    and t3: "deref ctx_S1_failed 1 = Some (heap ctx_S1_failed ! 1)"
    and p3: "m_parent (heap ctx_S1_failed ! 1) = Some 0"
    and s3: "m_runState (heap ctx_S1_failed ! 1) = NeedsAnotherRun"
    and r3: "(store ctx_S1_failed 1 ((heap ctx_S1_failed ! 1)\<lparr>m_runState := Executing\<rparr>))
              \<lparr>m_currentPart := Some 0, ctx_runState := CompletedCycle\<rparr>
              = ctx_Testcase_recovered"
    by code_simp+
  from close_resolves_own_state [OF d3 t3, of 0] p3 s3 r3
  have 3: "close 0 ctx_S1_failed 1 = Some (Inr ctx_Testcase_recovered)"
    by simp
  \<comment> \<open>\<open>Testcase\<close> is closed while its last child \<open>S2\<close> has not started.\<close>
  have d4: "drain 0 ctx_S2_seen 1 = Some (Inr ctx_S2_seen)"
    and t4: "deref ctx_S2_seen 1 = Some (heap ctx_S2_seen ! 1)"
    and p4: "m_parent (heap ctx_S2_seen ! 1) = Some 0"
    and s4: "m_runState (heap ctx_S2_seen ! 1) = ExecutingChildren"
    and n4: "m_children (heap ctx_S2_seen ! 1) \<noteq> []"
    and k4: "deref ctx_S2_seen (last (m_children (heap ctx_S2_seen ! 1)))
              = Some (heap ctx_S2_seen ! 3)"
    and e4: "\<not> hasEnded (heap ctx_S2_seen ! 3)"
    and r4: "ctx_S2_seen\<lparr>m_currentPart := Some 0, ctx_runState := CompletedCycle\<rparr>
              = ctx_S2_seen\<lparr>m_currentPart := Some 0\<rparr>"
    by code_simp+
  from close_resolves_own_state [OF d4 t4, of 0 "heap ctx_S2_seen ! 3"] p4 s4 n4 k4 e4 r4
  have 4: "close 0 ctx_S2_seen 1 = Some (Inr (ctx_S2_seen\<lparr>m_currentPart := Some 0\<rparr>))"
    by simp
  \<comment> \<open>The generator \<open>G1\<close> of size 2 is closed while it is executing at index 0.\<close>
  have d5: "drain 0 ctx_G1_open 3 = Some (Inr ctx_G1_open)"
    and t5: "deref ctx_G1_open 3 = Some (heap ctx_G1_open ! 3)"
    and p5: "m_parent (heap ctx_G1_open ! 3) = Some 2"
    and s5: "m_runState (heap ctx_G1_open ! 3) = Executing"
    and v5: "variant (heap ctx_G1_open ! 3) = IndexTracker 2 0"
    and r5: "(store ctx_G1_open 3 ((heap ctx_G1_open ! 3)\<lparr>m_runState := Executing\<rparr>))
              \<lparr>m_currentPart := Some 2, ctx_runState := CompletedCycle\<rparr>
              = ctx_G1_closed_at_0"
    and b5: "(store ctx_G1_open 3 ((heap ctx_G1_open ! 3)\<lparr>m_runState := CompletedSuccessfully\<rparr>))
              \<lparr>m_currentPart := Some 2, ctx_runState := CompletedCycle\<rparr>
              = store ctx_G1_closed_at_0 3
                  ((heap ctx_G1_open ! 3)\<lparr>m_runState := CompletedSuccessfully\<rparr>)"
    by code_simp+
  from close_resolves_own_state [OF d5 t5, of 2] p5 s5 v5 r5 b5
  have 5: "PartTrackerBase_close 0 ctx_G1_open 3 =
     Some (Inr (store ctx_G1_closed_at_0 3
                 ((heap ctx_G1_open ! 3)\<lparr>m_runState := CompletedSuccessfully\<rparr>)))"
    and 6: "close 0 ctx_G1_open 3 = Some (Inr ctx_G1_closed_at_0)"
    by simp_all
  \<comment> \<open>The root is closed.\<close>
  have d7: "drain 0 ctx_Testcase_closed 0 = Some (Inr ctx_Testcase_closed)"
    and t7: "deref ctx_Testcase_closed 0 = Some (heap ctx_Testcase_closed ! 0)"
    and p7: "m_parent (heap ctx_Testcase_closed ! 0) = None"
    and s7: "m_runState (heap ctx_Testcase_closed ! 0) = ExecutingChildren"
    and k7: "deref ctx_Testcase_closed (last (m_children (heap ctx_Testcase_closed ! 0)))
               \<noteq> None"
    by code_simp+
  from close_resolves_own_state [OF d7 t7] p7 s7 k7
  have 7: "close 0 ctx_Testcase_closed 0 = Some (Inl AssertionFailed)"
    by simp
  from d t p s n k e 1 s2 2 s3 3 s4 e4 4 v5 s5 5 6 p7 s7 7 show ?thesis
    by (intro conjI)
qed

section \<open>C2: the generations of an index tracker\<close>





text \<open>
  Not part of the amended claim: after a section inside the generator has failed at
  the last index, the generator is \<open>NeedsAnotherRun\<close>, its \<^verbatim>\<open>close\<close> makes it \<open>Executing\<close>, and
  the \<^verbatim>\<open>acquire\<close> of the next cycle advances the index once more.  Here \<open>G1\<close> has size 1
  and is open at index 1 in the second cycle.
\<close>

lemma index_beyond_size_after_failure:
  "(case run 1
      [StartRun, StartCycle, AcquireSection ''Testcase'', AcquireIndex ''G1'' 1,
       AcquireSection ''S2'', Fail 3, Close 2, Close 1,
       StartCycle, AcquireSection ''Testcase'', AcquireIndex ''G1'' 1]
      TrackerContext_new of
      Some (Inr c) \<Rightarrow> variant (heap c ! 2) = IndexTracker 1 1 \<and> isOpen (heap c ! 2)
    | _ \<Rightarrow> False)"
  by code_simp

section \<open>C3: acquire after the cycle has completed, and on an ended section\<close>

text \<open>
  Claim C3.  Let \<open>cur\<close> be the current tracker and \<open>ct\<close> its cell.  When the cycle is
  already marked completed, \<^verbatim>\<open>SectionTracker::acquire\<close> opens nothing: a name that is not among
  the children of \<open>cur\<close> gets a new tracker, appended to the store and to the children
  of \<open>cur\<close>, which is \<open>NotStarted\<close> and not open, while the run-state of every existing
  tracker, the current pointer and the cycle flag stay as they are; a name that is found
  is returned with the context unchanged.  And whether the cycle is completed or not, a
  section that is found and has ended is returned with the context unchanged, so it is
  not open.
\<close>

theorem acquire_section_after_completed_cycle:
  assumes "m_currentPart c = Some cur" and "deref c cur = Some ct"
  shows
    "(completedCycle c \<longrightarrow> findChild c ct name = None \<longrightarrow>
        SectionTracker_acquire c name =
          Inr (with_child c cur ct (SectionTracker_new name (Some cur)), length (heap c)) \<and>
        deref (with_child c cur ct (SectionTracker_new name (Some cur))) (length (heap c))
          = Some (SectionTracker_new name (Some cur)) \<and>
        m_runState (SectionTracker_new name (Some cur)) = NotStarted \<and>
        \<not> isOpen (SectionTracker_new name (Some cur)) \<and>
        (\<forall>a t. deref c a = Some t \<longrightarrow>
           (\<exists>t'. deref (with_child c cur ct (SectionTracker_new name (Some cur))) a = Some t' \<and>
              m_runState t' = m_runState t)) \<and>
        m_currentPart (with_child c cur ct (SectionTracker_new name (Some cur))) = Some cur \<and>
        completedCycle (with_child c cur ct (SectionTracker_new name (Some cur)))) \<and>
     (completedCycle c \<longrightarrow> findChild c ct name = Some part \<longrightarrow> deref c part = Some pt \<longrightarrow>
      variant pt = SectionTracker \<longrightarrow>
        SectionTracker_acquire c name = Inr (c, part)) \<and>
     (findChild c ct name = Some part \<longrightarrow> deref c part = Some pt \<longrightarrow>
      variant pt = SectionTracker \<longrightarrow> hasEnded pt \<longrightarrow>
        SectionTracker_acquire c name = Inr (c, part) \<and> \<not> isOpen pt)"
proof -
  let ?new = "SectionTracker_new name (Some cur)"
  let ?c = "with_child c cur ct ?new"
  have 1: "completedCycle c \<longrightarrow> findChild c ct name = None \<longrightarrow>
        SectionTracker_acquire c name = Inr (?c, length (heap c)) \<and>
        deref ?c (length (heap c)) = Some ?new \<and>
        m_runState ?new = NotStarted \<and>
        \<not> isOpen ?new \<and>
        (\<forall>a t. deref c a = Some t \<longrightarrow>
           (\<exists>t'. deref ?c a = Some t' \<and> m_runState t' = m_runState t)) \<and>
        m_currentPart ?c = Some cur \<and>
        completedCycle ?c"
  proof (intro impI conjI allI)
    assume cc: "completedCycle c" and n: "findChild c ct name = None"
    show "SectionTracker_acquire c name = Inr (?c, length (heap c))"
      using cc by (simp add: SectionTracker_acquire_new [OF assms n])
    show "deref ?c (length (heap c)) = Some ?new"
      using assms(2) by (rule deref_with_child_new)
    show "m_runState ?new = NotStarted"
      by (simp add: SectionTracker_new_def)
    show "\<not> isOpen ?new"
      by (simp add: isOpen_def hasStarted_def SectionTracker_new_def)
    show "m_currentPart ?c = Some cur"
      using assms(1) by simp
    show "completedCycle ?c"
      using cc by (simp add: completedCycle_def)
    fix a t
    assume "deref c a = Some t"
    from deref_with_child_old [OF assms(2) this, of ?new] assms(2) \<open>deref c a = Some t\<close>
    show "\<exists>t'. deref ?c a = Some t' \<and> m_runState t' = m_runState t"
      by auto
  qed
  have 2: "completedCycle c \<longrightarrow> findChild c ct name = Some part \<longrightarrow> deref c part = Some pt \<longrightarrow>
      variant pt = SectionTracker \<longrightarrow> SectionTracker_acquire c name = Inr (c, part)"
    by (simp add: SectionTracker_acquire_found [OF assms])
  have 3: "findChild c ct name = Some part \<longrightarrow> deref c part = Some pt \<longrightarrow>
      variant pt = SectionTracker \<longrightarrow> hasEnded pt \<longrightarrow>
        SectionTracker_acquire c name = Inr (c, part) \<and> \<not> isOpen pt"
    by (simp add: SectionTracker_acquire_found [OF assms] isOpen_def)
  from 1 2 3 show ?thesis by (intro conjI)
qed

theorem acquire_section_after_completed_cycle_witness:
  "m_currentPart ctx_S1_closed = Some 1 \<and>
   deref ctx_S1_closed 1 = Some (heap ctx_S1_closed ! 1) \<and>
   completedCycle ctx_S1_closed \<and>
   findChild ctx_S1_closed (heap ctx_S1_closed ! 1) ''S2'' = None \<and>
   SectionTracker_acquire ctx_S1_closed ''S2'' = Inr (ctx_S2_seen, 3) \<and>
   \<not> isOpen (heap ctx_S2_seen ! 3) \<and>
   completedCycle ctx_S2_seen \<and>
   findChild ctx_S2_seen (heap ctx_S2_seen ! 1) ''S2'' = Some 3 \<and>
   SectionTracker_acquire ctx_S2_seen ''S2'' = Inr (ctx_S2_seen, 3) \<and>
   \<not> completedCycle ctx_reentered \<and>
   findChild ctx_reentered (heap ctx_reentered ! 1) ''S1'' = Some 2 \<and>
   hasEnded (heap ctx_reentered ! 2) \<and>
   SectionTracker_acquire ctx_reentered ''S1'' = Inr (ctx_reentered, 2) \<and>
   \<not> isOpen (heap ctx_reentered ! 2)"
proof -
  \<comment> \<open>\<open>S2\<close> is seen for the first time after \<open>S1\<close> has closed.\<close>
  have m: "m_currentPart ctx_S1_closed = Some 1"
    and t: "deref ctx_S1_closed 1 = Some (heap ctx_S1_closed ! 1)"
    and cc: "completedCycle ctx_S1_closed"
    and n: "findChild ctx_S1_closed (heap ctx_S1_closed ! 1) ''S2'' = None"
    and w: "with_child ctx_S1_closed 1 (heap ctx_S1_closed ! 1)
              (SectionTracker_new ''S2'' (Some 1)) = ctx_S2_seen"
    and l: "length (heap ctx_S1_closed) = 3"
    and s: "heap ctx_S2_seen ! 3 = SectionTracker_new ''S2'' (Some 1)"
    by code_simp+
  note a = acquire_section_after_completed_cycle [OF m t, of "''S2''"]
  from a cc n have 1: "SectionTracker_acquire ctx_S1_closed ''S2'' = Inr (ctx_S2_seen, 3)"
    unfolding w l by blast
  from a cc n have 2: "\<not> isOpen (heap ctx_S2_seen ! 3)"
    unfolding s by blast
  \<comment> \<open>\<open>S2\<close> is acquired once more in the same cycle.\<close>
  have m2: "m_currentPart ctx_S2_seen = Some 1"
    and t2: "deref ctx_S2_seen 1 = Some (heap ctx_S2_seen ! 1)"
    and cc2: "completedCycle ctx_S2_seen"
    and f2: "findChild ctx_S2_seen (heap ctx_S2_seen ! 1) ''S2'' = Some 3"
    and p2: "deref ctx_S2_seen 3 = Some (heap ctx_S2_seen ! 3)"
    and v2: "variant (heap ctx_S2_seen ! 3) = SectionTracker"
    by code_simp+
  from acquire_section_after_completed_cycle [OF m2 t2, of "''S2''" 3 "heap ctx_S2_seen ! 3"]
    cc2 f2 p2 v2
  have 3: "SectionTracker_acquire ctx_S2_seen ''S2'' = Inr (ctx_S2_seen, 3)"
    by blast
  \<comment> \<open>\<open>S1\<close> has ended and is acquired in the next cycle.\<close>
  have m3: "m_currentPart ctx_reentered = Some 1"
    and t3: "deref ctx_reentered 1 = Some (heap ctx_reentered ! 1)"
    and cc3: "\<not> completedCycle ctx_reentered"
    and f3: "findChild ctx_reentered (heap ctx_reentered ! 1) ''S1'' = Some 2"
    and p3: "deref ctx_reentered 2 = Some (heap ctx_reentered ! 2)"
    and v3: "variant (heap ctx_reentered ! 2) = SectionTracker"
    and e3: "hasEnded (heap ctx_reentered ! 2)"
    by code_simp+
  from acquire_section_after_completed_cycle [OF m3 t3, of "''S1''" 2 "heap ctx_reentered ! 2"]
    f3 p3 v3 e3
  have 4: "SectionTracker_acquire ctx_reentered ''S1'' = Inr (ctx_reentered, 2) \<and>
           \<not> isOpen (heap ctx_reentered ! 2)"
    by blast
  from m t cc n 1 2 cc2 f2 3 cc3 f3 e3 4 show ?thesis by (intro conjI) simp_all
qed


section \<open>C4: fail\<close>

text \<open>
  Claim C4 says that a tracker on which \<^verbatim>\<open>fail\<close> is called becomes \<open>Failed\<close> and stays
  \<open>Failed\<close>, that its parent is marked \<open>NeedsAnotherRun\<close>, so that the parent's next \<^verbatim>\<open>close\<close>
  returns it to \<open>Executing\<close> and the ancestors are entered again in the next cycle, and
  that \<^verbatim>\<open>fail\<close> makes the parent current and completes the cycle.  It fails in two places:
  \<^item> \<^verbatim>\<open>markAsNeedingAnotherRun\<close> assigns the state without looking at it, so a later \<^verbatim>\<open>fail\<close>
    on a child of the failed tracker takes the tracker out of \<open>Failed\<close>.  Below, \<open>S2\<close>
    (address 3) is open inside \<open>S1\<close> (address 2) when \<^verbatim>\<open>s1.fail()\<close> is called; \<^verbatim>\<open>s2.fail()\<close>
    then marks \<open>S1\<close> as \<open>NeedsAnotherRun\<close>, the \<^verbatim>\<open>close\<close> of \<open>Testcase\<close> makes it \<open>Executing\<close>,
    and the acquisition of \<open>S1\<close> in the next cycle opens it again.
  \<^item> when the parent is the root, the parent's next \<^verbatim>\<open>close\<close> is stopped by the assertion of
    \<^verbatim>\<open>moveToParent\<close> (C10).  Below, \<open>Testcase\<close> (address 1), a child of the root, has
    failed, and \<^verbatim>\<open>close\<close> on the root does not return.
\<close>

theorem fail_marks_tracker_and_parent_counterexample:
  "run 0 (open_S1 @ [AcquireSection ''S2'', Fail 2]) TrackerContext_new
     = Some (Inr ctx_S1_failed_S2_open) \<and>
   m_name (heap ctx_S1_failed_S2_open ! 2) = ''S1'' \<and>
   m_runState (heap ctx_S1_failed_S2_open ! 2) = Failed \<and>
   m_parent (heap ctx_S1_failed_S2_open ! 3) = Some 2 \<and>
   fail ctx_S1_failed_S2_open 3 = Inr ctx_S1_marked \<and>
   m_runState (heap ctx_S1_marked ! 2) = NeedsAnotherRun \<and>
   run 1 [Close 1, StartCycle, AcquireSection ''Testcase'', AcquireSection ''S1''] ctx_S1_marked
     = Some (Inr ctx_S1_reopened) \<and>
   isOpen (heap ctx_S1_reopened ! 2) \<and>
   m_currentPart ctx_S1_reopened = Some 2 \<and>
   run 0 [StartRun, StartCycle, AcquireSection ''Testcase'', Fail 1] TrackerContext_new
     = Some (Inr ctx_Testcase_failed) \<and>
   m_parent (heap ctx_Testcase_failed ! 1) = Some 0 \<and>
   m_runState (heap ctx_Testcase_failed ! 1) = Failed \<and>
   m_runState (heap ctx_Testcase_failed ! 0) = NeedsAnotherRun \<and>
   close 0 ctx_Testcase_failed 0 = Some (Inl AssertionFailed)"
  by code_simp

text \<open>
  Claim C4 as amended.  Let \<open>this\<close> be a tracker with parent \<open>p\<close> (whose cells hold \<open>t\<close>
  and \<open>tp\<close>).
  \<^item> \<^verbatim>\<open>fail\<close> returns the context \<open>c'\<close> in which the tracker is \<open>Failed\<close>, hence ended, its
    parent is \<open>NeedsAnotherRun\<close>, the current tracker is the parent and the cycle is marked
    completed, with nothing else changed.
  \<^item> As long as the tracker is \<open>Failed\<close>, no acquire reopens it: in whatever context \<open>d\<close>
    it is found in that state, the acquire function of its variant returns it with the
    context unchanged.
  \<^item> In every context \<open>d\<close> that calls of the API lead to, a tracker that is \<open>Failed\<close> is
    still \<open>Failed\<close> after any call that returns, unless the call is \<^verbatim>\<open>fail\<close> on one of its
    own children.
  \<^item> The next \<^verbatim>\<open>close\<close> of the parent puts the parent back to \<open>Executing\<close>, which is not an
    ended state, and moves the current pointer to the parent of the parent; where the
    parent has none (it is the root), that \<^verbatim>\<open>close\<close> is stopped by the assertion of
    \<^verbatim>\<open>moveToParent\<close>.
  \<^item> The parent is entered again: whenever it has not ended and is found by an acquire
    under the current tracker in a cycle that is not completed, an acquire that returns
    has opened it and made it the current tracker.
\<close>

theorem fail_marks_tracker_and_parent:
  assumes "deref c this = Some t" and "m_parent t = Some p" and "deref c p = Some tp"
    and "p \<noteq> this"
    and "c' = (store (store c this (t\<lparr>m_runState := Failed\<rparr>)) p
                 (tp\<lparr>m_runState := NeedsAnotherRun\<rparr>))
               \<lparr>m_currentPart := Some p, ctx_runState := CompletedCycle\<rparr>"
  shows
    "fail c this = Inr c' \<and>
     deref c' this = Some (t\<lparr>m_runState := Failed\<rparr>) \<and>
     hasEnded (t\<lparr>m_runState := Failed\<rparr>) \<and>
     deref c' p = Some (tp\<lparr>m_runState := NeedsAnotherRun\<rparr>) \<and>
     m_currentPart c' = Some p \<and>
     completedCycle c' \<and>
     (\<forall>d cur ct name u.
        m_currentPart d = Some cur \<and> deref d cur = Some ct \<and>
        findChild d ct name = Some this \<and> deref d this = Some u \<and> m_runState u = Failed \<longrightarrow>
        (variant u = SectionTracker \<longrightarrow> SectionTracker_acquire d name = Inr (d, this)) \<and>
        (\<forall>sz0 ix sz. variant u = IndexTracker sz0 ix \<longrightarrow>
           IndexTracker_acquire d name sz = Inr (d, this))) \<and>
     (\<forall>d n x d' u.
        reachable d \<and> deref d this = Some u \<and> m_runState u = Failed \<and>
        perform n x d = Some (Inr d') \<longrightarrow>
        (\<exists>u'. deref d' this = Some u' \<and> m_runState u' = Failed) \<or>
        (\<exists>a ua. x = Fail a \<and> deref d a = Some ua \<and> m_parent ua = Some this)) \<and>
     (\<forall>pp. m_parent tp = Some pp \<longrightarrow>
        close fuel c' p =
          Some (Inr ((store c' p (tp\<lparr>m_runState := Executing\<rparr>))\<lparr>m_currentPart := Some pp\<rparr>))) \<and>
     \<not> hasEnded (tp\<lparr>m_runState := Executing\<rparr>) \<and>
     (m_parent tp = None \<longrightarrow> close fuel c' p = Some (Inl AssertionFailed)) \<and>
     (\<forall>d cur ct name u d' a.
        m_currentPart d = Some cur \<and> deref d cur = Some ct \<and>
        findChild d ct name = Some p \<and> deref d p = Some u \<and> \<not> hasEnded u \<and>
        \<not> completedCycle d \<and>
        (SectionTracker_acquire d name = Inr (d', a) \<or>
         (\<exists>sz. IndexTracker_acquire d name sz = Inr (d', a))) \<longrightarrow>
        a = p \<and> m_currentPart d' = Some p \<and> (\<exists>u'. deref d' p = Some u' \<and> isOpen u'))"
proof -
  have 1: "fail c this = Inr c'"
    unfolding assms(5) using assms(1-4) by (rule fail_parent)
  have 2: "deref c' this = Some (t\<lparr>m_runState := Failed\<rparr>)"
    unfolding assms(5) using assms(1,4) by (auto simp: deref_store dest: deref_Some_length)
  have 3: "hasEnded (t\<lparr>m_runState := Failed\<rparr>)"
    by (simp add: hasEnded_def)
  have 4: "deref c' p = Some (tp\<lparr>m_runState := NeedsAnotherRun\<rparr>)"
    unfolding assms(5) using assms(3) by (auto simp: deref_store dest: deref_Some_length)
  have 5: "m_currentPart c' = Some p" and 6: "completedCycle c'"
    unfolding assms(5) by (simp_all add: completedCycle_def)
  have 7: "\<forall>d cur ct name u.
        m_currentPart d = Some cur \<and> deref d cur = Some ct \<and>
        findChild d ct name = Some this \<and> deref d this = Some u \<and> m_runState u = Failed \<longrightarrow>
        (variant u = SectionTracker \<longrightarrow> SectionTracker_acquire d name = Inr (d, this)) \<and>
        (\<forall>sz0 ix sz. variant u = IndexTracker sz0 ix \<longrightarrow>
           IndexTracker_acquire d name sz = Inr (d, this))"
    using acquire_ended by (simp add: hasEnded_def)
  have cc: "close fuel c' p = Some (close_current c' p)"
    using 5 by (rule close_is_close_current)
  note n = close_current_NeedsAnotherRun [OF 4, simplified]
  have 8: "\<forall>pp. m_parent tp = Some pp \<longrightarrow>
        close fuel c' p =
          Some (Inr ((store c' p (tp\<lparr>m_runState := Executing\<rparr>))\<lparr>m_currentPart := Some pp\<rparr>))"
    unfolding cc n by (simp add: assms(5))
  have 9: "\<not> hasEnded (tp\<lparr>m_runState := Executing\<rparr>)"
    by (simp add: hasEnded_def)
  have 10: "m_parent tp = None \<longrightarrow> close fuel c' p = Some (Inl AssertionFailed)"
    unfolding cc n by simp
  have 11: "\<forall>d n x d' u.
        reachable d \<and> deref d this = Some u \<and> m_runState u = Failed \<and>
        perform n x d = Some (Inr d') \<longrightarrow>
        (\<exists>u'. deref d' this = Some u' \<and> m_runState u' = Failed) \<or>
        (\<exists>a ua. x = Fail a \<and> deref d a = Some ua \<and> m_parent ua = Some this)"
    using failed_stays by blast
  have 12: "\<forall>d cur ct name u d' a.
        m_currentPart d = Some cur \<and> deref d cur = Some ct \<and>
        findChild d ct name = Some p \<and> deref d p = Some u \<and> \<not> hasEnded u \<and>
        \<not> completedCycle d \<and>
        (SectionTracker_acquire d name = Inr (d', a) \<or>
         (\<exists>sz. IndexTracker_acquire d name sz = Inr (d', a))) \<longrightarrow>
        a = p \<and> m_currentPart d' = Some p \<and> (\<exists>u'. deref d' p = Some u' \<and> isOpen u')"
  proof (intro allI impI)
    fix d cur ct name u d' a
    assume "m_currentPart d = Some cur \<and> deref d cur = Some ct \<and>
        findChild d ct name = Some p \<and> deref d p = Some u \<and> \<not> hasEnded u \<and>
        \<not> completedCycle d \<and>
        (SectionTracker_acquire d name = Inr (d', a) \<or>
         (\<exists>sz. IndexTracker_acquire d name sz = Inr (d', a)))"
    then have h: "m_currentPart d = Some cur" "deref d cur = Some ct"
      "findChild d ct name = Some p" "deref d p = Some u" "\<not> hasEnded u"
      "\<not> completedCycle d"
      "SectionTracker_acquire d name = Inr (d', a) \<or>
         (\<exists>sz. IndexTracker_acquire d name sz = Inr (d', a))"
      by simp_all
    from acquire_opens [OF h]
    show "a = p \<and> m_currentPart d' = Some p \<and> (\<exists>u'. deref d' p = Some u' \<and> isOpen u')" .
  qed
  from 1 2 3 4 5 6 7 11 8 9 10 12 show ?thesis by (intro conjI)
qed

theorem fail_marks_tracker_and_parent_witness:
  "deref ctx_S1_open 2 = Some (heap ctx_S1_open ! 2) \<and>
   m_parent (heap ctx_S1_open ! 2) = Some 1 \<and>
   deref ctx_S1_open 1 = Some (heap ctx_S1_open ! 1) \<and>
   fail ctx_S1_open 2 = Inr ctx_S1_failed \<and>
   m_runState (heap ctx_S1_failed ! 2) = Failed \<and>
   m_runState (heap ctx_S1_failed ! 1) = NeedsAnotherRun \<and>
   m_currentPart ctx_S1_failed = Some 1 \<and>
   completedCycle ctx_S1_failed \<and>
   findChild ctx_S1_failed (heap ctx_S1_failed ! 1) ''S1'' = Some 2 \<and>
   SectionTracker_acquire ctx_S1_failed ''S1'' = Inr (ctx_S1_failed, 2) \<and>
   \<not> completedCycle ctx_reentered_after_failure \<and>
   findChild ctx_reentered_after_failure (heap ctx_reentered_after_failure ! 1) ''S1'' = Some 2 \<and>
   m_runState (heap ctx_reentered_after_failure ! 2) = Failed \<and>
   SectionTracker_acquire ctx_reentered_after_failure ''S1''
     = Inr (ctx_reentered_after_failure, 2) \<and>
   m_parent (heap ctx_S1_open ! 1) = Some 0 \<and>
   close 0 ctx_S1_failed 1 = Some (Inr ctx_Testcase_recovered) \<and>
   m_runState (heap ctx_Testcase_recovered ! 1) = Executing \<and>
   reachable ctx_S1_failed \<and>
   perform 0 (Close 1) ctx_S1_failed = Some (Inr ctx_Testcase_recovered) \<and>
   m_runState (heap ctx_Testcase_recovered ! 2) = Failed \<and>
   m_currentPart (startCycle ctx_Testcase_recovered) = Some 0 \<and>
   findChild (startCycle ctx_Testcase_recovered) (heap ctx_Testcase_recovered ! 0) ''Testcase''
     = Some 1 \<and>
   \<not> completedCycle (startCycle ctx_Testcase_recovered) \<and>
   SectionTracker_acquire (startCycle ctx_Testcase_recovered) ''Testcase''
     = Inr (ctx_reentered_after_failure, 1) \<and>
   m_currentPart ctx_reentered_after_failure = Some 1 \<and>
   isOpen (heap ctx_reentered_after_failure ! 1)"
proof -
  have t: "deref ctx_S1_open 2 = Some (heap ctx_S1_open ! 2)"
    and p: "m_parent (heap ctx_S1_open ! 2) = Some 1"
    and tp: "deref ctx_S1_open 1 = Some (heap ctx_S1_open ! 1)"
    and ne: "(1::nat) \<noteq> 2"
    and c': "ctx_S1_failed =
        (store (store ctx_S1_open 2 ((heap ctx_S1_open ! 2)\<lparr>m_runState := Failed\<rparr>)) 1
           ((heap ctx_S1_open ! 1)\<lparr>m_runState := NeedsAnotherRun\<rparr>))
         \<lparr>m_currentPart := Some 1, ctx_runState := CompletedCycle\<rparr>"
    by code_simp+
  note w = fail_marks_tracker_and_parent [OF t p tp ne c', of 0]
  from w have 1: "fail ctx_S1_open 2 = Inr ctx_S1_failed"
    by (rule conjunct1)
  have s: "m_runState (heap ctx_S1_failed ! 2) = Failed"
    and n: "m_runState (heap ctx_S1_failed ! 1) = NeedsAnotherRun"
    and m: "m_currentPart ctx_S1_failed = Some 1"
    and cc: "completedCycle ctx_S1_failed"
    by code_simp+
  \<comment> \<open>\<open>S1\<close> is acquired again in the same cycle.\<close>
  have d1: "deref ctx_S1_failed 1 = Some (heap ctx_S1_failed ! 1)"
    and f1: "findChild ctx_S1_failed (heap ctx_S1_failed ! 1) ''S1'' = Some 2"
    and u1: "deref ctx_S1_failed 2 = Some (heap ctx_S1_failed ! 2)"
    and v1: "variant (heap ctx_S1_failed ! 2) = SectionTracker"
    by code_simp+
  from w m d1 f1 u1 s v1
  have 2: "SectionTracker_acquire ctx_S1_failed ''S1'' = Inr (ctx_S1_failed, 2)"
    by blast
  \<comment> \<open>\<open>S1\<close> is acquired in the next cycle.\<close>
  have m2: "m_currentPart ctx_reentered_after_failure = Some 1"
    and d2: "deref ctx_reentered_after_failure 1 = Some (heap ctx_reentered_after_failure ! 1)"
    and f2: "findChild ctx_reentered_after_failure (heap ctx_reentered_after_failure ! 1) ''S1''
               = Some 2"
    and u2: "deref ctx_reentered_after_failure 2 = Some (heap ctx_reentered_after_failure ! 2)"
    and s2: "m_runState (heap ctx_reentered_after_failure ! 2) = Failed"
    and v2: "variant (heap ctx_reentered_after_failure ! 2) = SectionTracker"
    and cc2: "\<not> completedCycle ctx_reentered_after_failure"
    by code_simp+
  from w m2 d2 f2 u2 s2 v2
  have 3: "SectionTracker_acquire ctx_reentered_after_failure ''S1''
             = Inr (ctx_reentered_after_failure, 2)"
    by blast
  \<comment> \<open>\<open>Testcase\<close>, the parent, is closed.\<close>
  have pp: "m_parent (heap ctx_S1_open ! 1) = Some 0"
    and r: "(store ctx_S1_failed 1 ((heap ctx_S1_open ! 1)\<lparr>m_runState := Executing\<rparr>))
              \<lparr>m_currentPart := Some 0\<rparr> = ctx_Testcase_recovered"
    and e: "m_runState (heap ctx_Testcase_recovered ! 1) = Executing"
    by code_simp+
  from w pp have "close 0 ctx_S1_failed 1 =
      Some (Inr ((store ctx_S1_failed 1 ((heap ctx_S1_open ! 1)\<lparr>m_runState := Executing\<rparr>))
                  \<lparr>m_currentPart := Some 0\<rparr>))"
    by blast
  then have 4: "close 0 ctx_S1_failed 1 = Some (Inr ctx_Testcase_recovered)"
    unfolding r .
  \<comment> \<open>\<open>S1\<close> is still \<open>Failed\<close> after that \<^verbatim>\<open>close\<close>.\<close>
  have re: "reachable ctx_S1_failed"
    using run_S1_failed by (rule reachableI)
  have pf: "perform 0 (Close 1) ctx_S1_failed = Some (Inr ctx_Testcase_recovered)"
    and d5: "deref ctx_Testcase_recovered 2 = Some (heap ctx_Testcase_recovered ! 2)"
    by code_simp+
  from w re u1 s pf
  have "(\<exists>u'. deref ctx_Testcase_recovered 2 = Some u' \<and> m_runState u' = Failed) \<or>
        (\<exists>a ua. Close 1 = Fail a \<and> deref ctx_S1_failed a = Some ua \<and> m_parent ua = Some 2)"
    by blast
  with d5 have 5: "m_runState (heap ctx_Testcase_recovered ! 2) = Failed"
    by auto
  \<comment> \<open>\<open>Testcase\<close> is acquired in the next cycle.\<close>
  have m6: "m_currentPart (startCycle ctx_Testcase_recovered) = Some 0"
    and d6: "deref (startCycle ctx_Testcase_recovered) 0 = Some (heap ctx_Testcase_recovered ! 0)"
    and f6: "findChild (startCycle ctx_Testcase_recovered) (heap ctx_Testcase_recovered ! 0)
               ''Testcase'' = Some 1"
    and u6: "deref (startCycle ctx_Testcase_recovered) 1 = Some (heap ctx_Testcase_recovered ! 1)"
    and h6: "\<not> hasEnded (heap ctx_Testcase_recovered ! 1)"
    and c6: "\<not> completedCycle (startCycle ctx_Testcase_recovered)"
    and a6: "SectionTracker_acquire (startCycle ctx_Testcase_recovered) ''Testcase''
               = Inr (ctx_reentered_after_failure, 1)"
    and d7: "deref ctx_reentered_after_failure 1 = Some (heap ctx_reentered_after_failure ! 1)"
    by code_simp+
  from w m6 d6 f6 u6 h6 c6 a6
  have "m_currentPart ctx_reentered_after_failure = Some 1 \<and>
        (\<exists>u'. deref ctx_reentered_after_failure 1 = Some u' \<and> isOpen u')"
    by blast
  with d7 have 6: "m_currentPart ctx_reentered_after_failure = Some 1"
    and 7: "isOpen (heap ctx_reentered_after_failure ! 1)"
    by auto
  from t p tp 1 s n m cc f1 2 cc2 f2 s2 3 pp 4 e re pf 5 m6 f6 c6 a6 6 7 show ?thesis
    by (intro conjI)
qed

section \<open>C5: which calls complete the cycle\<close>

text \<open>
  Claim C5 says that \<^verbatim>\<open>close\<close> and \<^verbatim>\<open>fail\<close> signal \<^verbatim>\<open>completeCycle\<close> only when the root closes,
  and not on a tracker deeper in the tree.  The code signals it at the end of every
  \<^verbatim>\<open>fail\<close> and of every \<^verbatim>\<open>close\<close> of a tracker that had not ended, at any depth: the test
  case itself requires \<^verbatim>\<open>ctx.completedCycle()\<close> after \<^verbatim>\<open>s1.close()\<close>.  Below, \<open>S1\<close> (address
  2) is a child of \<open>Testcase\<close> (address 1), not of the root (address 0); closing or failing
  it takes the context from \<open>Ctx_Executing\<close> to \<open>CompletedCycle\<close>.
\<close>

theorem close_and_fail_complete_cycle_counterexample:
  "m_rootPart ctx_S1_open = Some 0 \<and>
   m_parent (heap ctx_S1_open ! 2) = Some 1 \<and>
   ctx_runState ctx_S1_open = Ctx_Executing \<and>
   close 0 ctx_S1_open 2 = Some (Inr ctx_S1_closed) \<and>
   ctx_runState ctx_S1_closed = CompletedCycle \<and>
   fail ctx_S1_open 2 = Inr ctx_S1_failed \<and>
   ctx_runState ctx_S1_failed = CompletedCycle"
  by code_simp

text \<open>
  Claim C5 as amended.  Every \<^verbatim>\<open>fail\<close> that returns, and every \<^verbatim>\<open>close\<close> that returns from a
  tracker that had not already ended, leaves the run-state of the context at
  \<open>CompletedCycle\<close>, whatever the depth of the tracker; and \<^verbatim>\<open>fail\<close> does return on every
  tracker whose parent exists.
\<close>

theorem close_and_fail_complete_cycle_at_any_depth:
  assumes "deref c this = Some t"
  shows
    "(\<forall>c'. fail c this = Inr c' \<longrightarrow> ctx_runState c' = CompletedCycle) \<and>
     (\<forall>c'. \<not> hasEnded t \<longrightarrow> close fuel c this = Some (Inr c') \<longrightarrow>
        ctx_runState c' = CompletedCycle) \<and>
     (\<forall>p. m_parent t = Some p \<longrightarrow> deref c p \<noteq> None \<longrightarrow> (\<exists>c'. fail c this = Inr c'))"
  using fail_Inr [OF _ assms] close_not_ended [OF _ assms] fail_returns [OF assms]
  by blast

theorem close_and_fail_complete_cycle_at_any_depth_witness:
  "deref ctx_S1_open 2 = Some (heap ctx_S1_open ! 2) \<and>
   \<not> hasEnded (heap ctx_S1_open ! 2) \<and>
   m_parent (heap ctx_S1_open ! 2) = Some 1 \<and>
   deref ctx_S1_open 1 \<noteq> None \<and>
   close 0 ctx_S1_open 2 = Some (Inr ctx_S1_closed) \<and>
   ctx_runState ctx_S1_closed = CompletedCycle \<and>
   fail ctx_S1_open 2 = Inr ctx_S1_failed \<and>
   ctx_runState ctx_S1_failed = CompletedCycle"
proof -
  have t: "deref ctx_S1_open 2 = Some (heap ctx_S1_open ! 2)"
    and e: "\<not> hasEnded (heap ctx_S1_open ! 2)"
    and p: "m_parent (heap ctx_S1_open ! 2) = Some 1"
    and q: "deref ctx_S1_open 1 \<noteq> None"
    and c: "close 0 ctx_S1_open 2 = Some (Inr ctx_S1_closed)"
    and f: "fail ctx_S1_open 2 = Inr ctx_S1_failed"
    by code_simp+
  note w = close_and_fail_complete_cycle_at_any_depth [OF t, of 0]
  from w e c have 1: "ctx_runState ctx_S1_closed = CompletedCycle"
    by blast
  from w f have 2: "ctx_runState ctx_S1_failed = CompletedCycle"
    by blast
  from t e p q c 1 f 2 show ?thesis
    by (intro conjI)
qed

section \<open>C6: close on a tracker that has already ended\<close>

text \<open>
  Claim C6 says that \<^verbatim>\<open>close\<close> on a tracker that is already \<open>CompletedSuccessfully\<close> or
  \<open>Failed\<close> changes nothing and returns.  The \<^verbatim>\<open>switch\<close> does return at once in these two
  states, but the loop before it runs first, and an ended tracker is as a rule not the
  current one (ending it moved the current pointer to its parent).  Below: closing
  \<open>S1\<close> a second time, or closing it after it has failed, closes \<open>Testcase\<close> and then
  the root, where the assertion of \<^verbatim>\<open>moveToParent\<close> stops the call; and closing the failed
  \<open>S1\<close> while its child \<open>S2\<close> is current returns, with \<open>S2\<close> closed and the current
  pointer moved.
\<close>

theorem close_of_ended_tracker_counterexample:
  "hasEnded (heap ctx_S1_closed ! 2) \<and>
   close 2 ctx_S1_closed 2 = Some (Inl AssertionFailed) \<and>
   hasEnded (heap ctx_S1_failed ! 2) \<and>
   close 2 ctx_S1_failed 2 = Some (Inl AssertionFailed) \<and>
   hasEnded (heap ctx_inside_failed ! 2) \<and>
   m_currentPart ctx_inside_failed = Some 3 \<and>
   m_runState (heap ctx_inside_failed ! 3) = NeedsAnotherRun \<and>
   close 1 ctx_inside_failed 2 = Some (Inr ctx_current_failed) \<and>
   m_currentPart ctx_current_failed = Some 2 \<and>
   m_runState (heap ctx_current_failed ! 3) = Executing"
  by code_simp


text \<open>
  Claim C6 as amended.  In every context that calls of the API can reach, and for a
  tracker of either variant that has already ended: once the loop of \<^verbatim>\<open>close\<close> has finished
  (with the context \<open>c1\<close>), \<^verbatim>\<open>close\<close> returns \<open>c1\<close> as it is, with the tracker, the current
  pointer and the cycle flag untouched; when the tracker is the current one, the loop
  does nothing and \<^verbatim>\<open>close\<close> returns the context it was given.
\<close>

theorem close_of_ended_tracker:
  assumes "reachable c"
    and "drain fuel c this = Some (Inr c1)"
    and "deref c this = Some t"
    and "hasEnded t"
  shows "PartTrackerBase_close fuel c this = Some (Inr c1) \<and>
     close fuel c this = Some (Inr c1) \<and>
     deref c1 this = Some t \<and>
     (m_currentPart c = Some this \<longrightarrow> c1 = c)"
proof -
  from drain_result [OF assms(2)] assms(3) have t1: "deref c1 this = Some t"
    by simp
  have "index_invariant c1"
    using reachable_index_invariant [OF assms(1)] assms(2) by (rule index_invariant_drain)
  from this t1 have e: "exhausted_if_completed t"
    by (rule index_invariant_deref)
  have 1: "PartTrackerBase_close fuel c this = Some (Inr c1)"
    using assms(2) switch_ended [OF t1 assms(4)] by (simp add: PartTrackerBase_close_drained)
  have 2: "close fuel c this = Some (Inr c1)"
    using assms(2,3) close_current_ended [OF t1 assms(4) e] by (simp add: close_eq)
  have 3: "m_currentPart c = Some this \<longrightarrow> c1 = c"
    using assms(2) by (auto simp: drain_current)
  from 1 2 t1 3 show ?thesis by (intro conjI)
qed


theorem close_of_ended_tracker_witness:
  "reachable ctx_current_failed \<and>
   drain 0 ctx_current_failed 2 = Some (Inr ctx_current_failed) \<and>
   deref ctx_current_failed 2 = Some (heap ctx_current_failed ! 2) \<and>
   hasEnded (heap ctx_current_failed ! 2) \<and>
   m_currentPart ctx_current_failed = Some 2 \<and>
   close 0 ctx_current_failed 2 = Some (Inr ctx_current_failed) \<and>
   reachable ctx_inside_failed \<and>
   drain 1 ctx_inside_failed 2 = Some (Inr ctx_current_failed) \<and>
   deref ctx_inside_failed 2 = Some (heap ctx_inside_failed ! 2) \<and>
   hasEnded (heap ctx_inside_failed ! 2) \<and>
   close 1 ctx_inside_failed 2 = Some (Inr ctx_current_failed)"
proof -
  have r: "reachable ctx_current_failed"
    using run_current_failed by (rule reachableI)
  have d: "drain 0 ctx_current_failed 2 = Some (Inr ctx_current_failed)"
    and t: "deref ctx_current_failed 2 = Some (heap ctx_current_failed ! 2)"
    and e: "hasEnded (heap ctx_current_failed ! 2)"
    and m: "m_currentPart ctx_current_failed = Some 2"
    by code_simp+
  from close_of_ended_tracker [OF r d t e]
  have 1: "close 0 ctx_current_failed 2 = Some (Inr ctx_current_failed)"
    by blast
  have r2: "reachable ctx_inside_failed"
    using run_inside_failed by (rule reachableI)
  have d2: "drain 1 ctx_inside_failed 2 = Some (Inr ctx_current_failed)"
    and t2: "deref ctx_inside_failed 2 = Some (heap ctx_inside_failed ! 2)"
    and e2: "hasEnded (heap ctx_inside_failed ! 2)"
    by code_simp+
  from close_of_ended_tracker [OF r2 d2 t2 e2]
  have 2: "close 1 ctx_inside_failed 2 = Some (Inr ctx_current_failed)"
    by blast
  from r d t e m 1 r2 d2 t2 e2 2 show ?thesis by (intro conjI)
qed

section \<open>C7: the size given to acquire for an index tracker that exists\<close>

text \<open>
  Claim C7 says that acquiring an existing index tracker with a size other than the
  recorded one is a usage error that stops with a diagnostic.  \<^verbatim>\<open>IndexTracker::acquire\<close> uses
  its \<^verbatim>\<open>size\<close> argument in the constructor call only; for a tracker that \<^verbatim>\<open>findChild\<close> finds
  the argument is never read.  Below, \<open>G1\<close> was created with size 2 and is acquired in
  the second cycle with size 5: the call returns the tracker, opened at index 1, and its
  size is still 2.
\<close>

theorem acquire_index_ignores_size_counterexample:
  "m_currentPart ctx_second_generation = Some 2 \<and>
   findChild ctx_second_generation (heap ctx_second_generation ! 2) ''G1'' = Some 3 \<and>
   m_size (heap ctx_second_generation ! 3) = Some 2 \<and>
   IndexTracker_acquire ctx_second_generation ''G1'' 5 = Inr (ctx_G1_at_1, 3) \<and>
   m_size (heap ctx_G1_at_1 ! 3) = Some 2"
  by code_simp


text \<open>
  Claim C7 as amended.  When \<^verbatim>\<open>IndexTracker::acquire\<close> finds an index tracker of that name
  under the current tracker, the size it is given has no effect: the call does what the
  call with the recorded size \<open>sz0\<close> does, it is stopped neither by an assertion nor by
  a logic error, and the tracker it returns is the one found, whose recorded size is
  still \<open>sz0\<close>.
\<close>

theorem acquire_index_ignores_size:
  assumes "m_currentPart c = Some cur" and "deref c cur = Some ct"
    and "findChild c ct name = Some part" and "deref c part = Some pt"
    and "variant pt = IndexTracker sz0 ix"
  shows "IndexTracker_acquire c name sz = IndexTracker_acquire c name sz0 \<and>
     IndexTracker_acquire c name sz \<noteq> Inl AssertionFailed \<and>
     IndexTracker_acquire c name sz \<noteq> Inl LogicError \<and>
     (\<forall>c' a. IndexTracker_acquire c name sz = Inr (c', a) \<longrightarrow>
        a = part \<and> (\<exists>t'. deref c' part = Some t' \<and> m_size t' = Some sz0))"
proof -
  have 1: "IndexTracker_acquire c name sz = IndexTracker_acquire c name sz0"
    by (simp only: IndexTracker_acquire_found [OF assms])
  let ?pt = "pt\<lparr>variant := IndexTracker sz0 (ix + 1), m_children := []\<rparr>"
  have d: "deref (store c part ?pt) part = Some ?pt"
    using assms(4) by (auto simp: deref_store dest: deref_Some_length)
  have s: "m_size pt = Some sz0" "m_size ?pt = Some sz0"
    using assms(5) by (simp_all add: m_size_def)
  have 234: "IndexTracker_acquire c name sz \<noteq> Inl AssertionFailed \<and>
     IndexTracker_acquire c name sz \<noteq> Inl LogicError \<and>
     (\<forall>c' a. IndexTracker_acquire c name sz = Inr (c', a) \<longrightarrow>
        a = part \<and> (\<exists>t'. deref c' part = Some t' \<and> m_size t' = Some sz0))"
    using assms
  proof (cases rule: IndexTracker_acquire_found_cases [where sz = sz])
    case skipped
    with assms(4) s show ?thesis by simp
  next
    case reopened
    show ?thesis
    proof (cases "open_part c part")
      case (Inl e)
      with reopened(4) open_part_error [OF Inl] show ?thesis by simp
    next
      case (Inr c4)
      from open_part_frame [OF Inr assms(4)] obtain st where
        "deref c4 part = Some (pt\<lparr>m_runState := st\<rparr>)" by blast
      moreover have "m_size (pt\<lparr>m_runState := st\<rparr>) = Some sz0"
        using assms(5) by (simp add: m_size_def)
      ultimately show ?thesis using reopened(4) Inr by simp
    qed
  next
    case advanced
    show ?thesis
    proof (cases "open_part (store c part ?pt) part")
      case (Inl e)
      with advanced(4) open_part_error [OF Inl] show ?thesis by simp
    next
      case (Inr c4)
      from open_part_frame [OF Inr d] obtain st where
        "deref c4 part = Some (?pt\<lparr>m_runState := st\<rparr>)" by blast
      moreover have "m_size (?pt\<lparr>m_runState := st\<rparr>) = Some sz0"
        by (simp add: m_size_def)
      ultimately show ?thesis using advanced(4) Inr by simp
    qed
  qed
  from 234 have 2: "IndexTracker_acquire c name sz \<noteq> Inl AssertionFailed"
    and 3: "IndexTracker_acquire c name sz \<noteq> Inl LogicError"
    and 4: "\<forall>c' a. IndexTracker_acquire c name sz = Inr (c', a) \<longrightarrow>
        a = part \<and> (\<exists>t'. deref c' part = Some t' \<and> m_size t' = Some sz0)"
    by blast+
  from 1 2 3 4 show ?thesis by (intro conjI)
qed


theorem acquire_index_ignores_size_witness:
  "m_currentPart ctx_second_generation = Some 2 \<and>
   deref ctx_second_generation 2 = Some (heap ctx_second_generation ! 2) \<and>
   findChild ctx_second_generation (heap ctx_second_generation ! 2) ''G1'' = Some 3 \<and>
   deref ctx_second_generation 3 = Some (heap ctx_second_generation ! 3) \<and>
   variant (heap ctx_second_generation ! 3) = IndexTracker 2 0 \<and>
   IndexTracker_acquire ctx_second_generation ''G1'' 2 = Inr (ctx_G1_at_1, 3) \<and>
   IndexTracker_acquire ctx_second_generation ''G1'' 5 = Inr (ctx_G1_at_1, 3)"
proof -
  have m: "m_currentPart ctx_second_generation = Some 2"
    and t: "deref ctx_second_generation 2 = Some (heap ctx_second_generation ! 2)"
    and f: "findChild ctx_second_generation (heap ctx_second_generation ! 2) ''G1'' = Some 3"
    and p: "deref ctx_second_generation 3 = Some (heap ctx_second_generation ! 3)"
    and v: "variant (heap ctx_second_generation ! 3) = IndexTracker 2 0"
    and a: "IndexTracker_acquire ctx_second_generation ''G1'' 2 = Inr (ctx_G1_at_1, 3)"
    by code_simp+
  from acquire_index_ignores_size [OF m t f p v, of 5]
  have "IndexTracker_acquire ctx_second_generation ''G1'' 5
          = IndexTracker_acquire ctx_second_generation ''G1'' 2"
    by (rule conjunct1)
  from this a have b: "IndexTracker_acquire ctx_second_generation ''G1'' 5 = Inr (ctx_G1_at_1, 3)"
    by (rule trans)
  from m t f p v a b show ?thesis by (intro conjI)
qed


section \<open>C8: startRun\<close>

text \<open>
  Claim C8 says that \<^verbatim>\<open>startRun\<close> creates the root, clears the current pointer, sets the
  run-state to executing and returns the root, and that it fails when a run is already
  in progress.  The first half holds.  The second does not: \<^verbatim>\<open>startRun\<close> has no check, no
  assertion and no \<^verbatim>\<open>throw\<close> (which is why its model has no error result), and it
  replaces the root of a run in progress.  Below it is called in the middle of the
  first cycle of the test case, where the root is at address 0: it returns, and the
  root pointer is then the new tracker at address 3.
\<close>

theorem startRun_always_succeeds_counterexample:
  "run 0 open_S1 TrackerContext_new = Some (Inr ctx_S1_open) \<and>
   m_rootPart ctx_S1_open = Some 0 \<and>
   ctx_runState ctx_S1_open = Ctx_Executing \<and>
   snd (startRun ctx_S1_open) = 3 \<and>
   m_rootPart (fst (startRun ctx_S1_open)) = Some 3 \<and>
   m_currentPart (fst (startRun ctx_S1_open)) = None \<and>
   ctx_runState (fst (startRun ctx_S1_open)) = Ctx_Executing \<and>
   run 0 (open_S1 @ [StartRun]) TrackerContext_new = Some (Inr (fst (startRun ctx_S1_open)))"
  by code_simp

text \<open>
  Claim C8 as amended.  On every context, with or without a run in progress,
  \<^verbatim>\<open>startRun\<close> succeeds: it creates a fresh section tracker named \<open>{root}\<close> without
  parent, without children and not started, at a new address; makes it the root; clears
  the current pointer; sets the run-state to executing; returns the new root; and
  leaves the cells of the store that existed as they were.
\<close>

theorem startRun_always_succeeds:
  "startRun c =
     (c\<lparr>heap := heap c @ [SectionTracker_new ''{root}'' None],
        m_rootPart := Some (length (heap c)), m_currentPart := None,
        ctx_runState := Ctx_Executing\<rparr>,
      length (heap c)) \<and>
   deref (fst (startRun c)) (snd (startRun c)) = Some (SectionTracker_new ''{root}'' None) \<and>
   variant (SectionTracker_new ''{root}'' None) = SectionTracker \<and>
   m_name (SectionTracker_new ''{root}'' None) = ''{root}'' \<and>
   m_parent (SectionTracker_new ''{root}'' None) = None \<and>
   m_children (SectionTracker_new ''{root}'' None) = [] \<and>
   m_runState (SectionTracker_new ''{root}'' None) = NotStarted \<and>
   m_rootPart (fst (startRun c)) = Some (snd (startRun c)) \<and>
   m_currentPart (fst (startRun c)) = None \<and>
   ctx_runState (fst (startRun c)) = Ctx_Executing \<and>
   take (length (heap c)) (heap (fst (startRun c))) = heap c"
  by (simp add: startRun_def alloc_def deref_def SectionTracker_new_def)


section \<open>C9: termination of the loop of close\<close>

text \<open>
  Claim C9 says that the loop at the start of \<^verbatim>\<open>close\<close> terminates in every reachable
  context, because each inner \<^verbatim>\<open>close\<close> moves the current pointer to the parent of the
  current tracker whatever the state of that tracker.  An inner \<^verbatim>\<open>close\<close> on a tracker
  that has ended returns from the \<^verbatim>\<open>switch\<close> before \<^verbatim>\<open>moveToParent\<close>, so it leaves the
  current pointer where it is.  The context below is reached by the calls
  \<open>nested_failures @ [Close 3]\<close>; its current tracker \<open>S1\<close> (address 2) is \<open>Failed\<close>.
  \<^verbatim>\<open>close\<close> on \<open>S1\<close> returns the same context with any fuel, and in \<^verbatim>\<open>close\<close> on \<open>Testcase\<close>
  (address 1) the loop is still running after any number of iterations.
\<close>

theorem drain_terminates_counterexample:
  "reachable ctx_current_failed \<and>
   m_currentPart ctx_current_failed = Some 2 \<and>
   m_parent (heap ctx_current_failed ! 2) = Some 1 \<and>
   m_runState (heap ctx_current_failed ! 2) = Failed \<and>
   close 0 ctx_current_failed 2 = Some (Inr ctx_current_failed) \<and>
   (\<forall>fuel. close fuel ctx_current_failed 2 = Some (Inr ctx_current_failed)) \<and>
   (\<forall>fuel. drain fuel ctx_current_failed 1 = None) \<and>
   (\<forall>fuel. close fuel ctx_current_failed 1 = None)"
proof -
  have r: "reachable ctx_current_failed"
    using run_current_failed by (rule reachableI)
  have m: "m_currentPart ctx_current_failed = Some 2"
    and p: "m_parent (heap ctx_current_failed ! 2) = Some 1"
    and s: "m_runState (heap ctx_current_failed ! 2) = Failed"
    and c0: "close 0 ctx_current_failed 2 = Some (Inr ctx_current_failed)"
    and t: "deref ctx_current_failed 1 \<noteq> None"
    by code_simp+
  from c0 close_is_close_current [OF m, of 0]
  have cc: "close_current ctx_current_failed 2 = Inr ctx_current_failed"
    by simp
  with close_is_close_current [OF m]
  have a: "\<forall>fuel. close fuel ctx_current_failed 2 = Some (Inr ctx_current_failed)"
    by simp
  have d: "\<forall>fuel. drain fuel ctx_current_failed 1 = None"
    using drain_stuck [OF m _ cc, of 1] by simp
  from t d have c: "\<forall>fuel. close fuel ctx_current_failed 1 = None"
    by (auto simp: close_eq)
  from r m p s c0 a d c show ?thesis by (intro conjI)
qed


text \<open>
  Claim C9 as amended.  When the trackers \<open>xs\<close> on the way from the current tracker up
  to the tracker being closed are distinct and open (and their last-child pointers
  valid), the loop at the start of \<^verbatim>\<open>close\<close> terminates after at most \<open>length xs\<close>
  iterations, with the tracker being closed as the current one and itself untouched;
  and an inner \<^verbatim>\<open>close\<close> on a current tracker that is open and has a parent returns with
  the current pointer moved to that parent.
\<close>

theorem drain_terminates_on_open_chain:
  assumes "distinct xs" and "m_currentPart c = Some cur" and "open_chain c cur xs this"
    and "length xs \<le> fuel"
  shows "(\<exists>c1. drain fuel c this = Some (Inr c1) \<and> m_currentPart c1 = Some this \<and>
            deref c1 this = deref c this) \<and>
     (\<forall>t p n. deref c cur = Some t \<and> isOpen t \<and> m_parent t = Some p \<and>
        (m_children t = [] \<or> deref c (last (m_children t)) \<noteq> None) \<longrightarrow>
        (\<exists>c'. close n c cur = Some (Inr c') \<and> m_currentPart c' = Some p))"
proof -
  from drain_open_chain [OF assms] obtain c1 where
    d: "drain fuel c this = Some (Inr c1)" "m_currentPart c1 = Some this" by blast
  from drain_result [OF d(1)] d
  have 1: "\<exists>c1. drain fuel c this = Some (Inr c1) \<and> m_currentPart c1 = Some this \<and>
            deref c1 this = deref c this"
    by blast
  have 2: "\<forall>t p n. deref c cur = Some t \<and> isOpen t \<and> m_parent t = Some p \<and>
        (m_children t = [] \<or> deref c (last (m_children t)) \<noteq> None) \<longrightarrow>
        (\<exists>c'. close n c cur = Some (Inr c') \<and> m_currentPart c' = Some p)"
  proof (intro allI impI, elim conjE)
    fix t p n
    assume t: "deref c cur = Some t" "isOpen t" "m_parent t = Some p"
      "m_children t = [] \<or> deref c (last (m_children t)) \<noteq> None"
    from close_current_open [OF t] obtain c' where
      "close_current c cur = Inr c'" "m_currentPart c' = Some p" by blast
    with close_is_close_current [OF assms(2), of n]
    show "\<exists>c'. close n c cur = Some (Inr c') \<and> m_currentPart c' = Some p"
      by simp
  qed
  from 1 2 show ?thesis by (intro conjI)
qed


theorem drain_terminates_on_open_chain_witness:
  "distinct [2, 1 :: nat] \<and>
   m_currentPart ctx_S1_open = Some 2 \<and>
   open_chain ctx_S1_open 2 [2, 1] 0 \<and>
   length [2, 1 :: nat] \<le> 2 \<and>
   (\<exists>c1. drain 2 ctx_S1_open 0 = Some (Inr c1) \<and> m_currentPart c1 = Some 0) \<and>
   drain 2 ctx_S1_open 0 = Some (Inr ctx_Testcase_closed) \<and>
   (\<exists>c'. close 0 ctx_S1_open 2 = Some (Inr c') \<and> m_currentPart c' = Some 1)"
proof -
  have di: "distinct [2, 1 :: nat]"
    and m: "m_currentPart ctx_S1_open = Some 2"
    and o: "open_chain ctx_S1_open 2 [2, 1] 0"
    and l: "length [2, 1 :: nat] \<le> 2"
    and v: "drain 2 ctx_S1_open 0 = Some (Inr ctx_Testcase_closed)"
    and t: "deref ctx_S1_open 2 = Some (heap ctx_S1_open ! 2)"
      "isOpen (heap ctx_S1_open ! 2)" "m_parent (heap ctx_S1_open ! 2) = Some 1"
      "m_children (heap ctx_S1_open ! 2) = []"
    by code_simp+
  note w = drain_terminates_on_open_chain [OF di m o l]
  from w have 1: "\<exists>c1. drain 2 ctx_S1_open 0 = Some (Inr c1) \<and> m_currentPart c1 = Some 0"
    by blast
  from w t have 2: "\<exists>c'. close 0 ctx_S1_open 2 = Some (Inr c') \<and> m_currentPart c' = Some 1"
    by blast
  from di m o l 1 v 2 show ?thesis by (intro conjI)
qed

section \<open>C10: a tracker without parent cannot be closed or failed\<close>

text \<open>
  Claim C10.  \<^verbatim>\<open>moveToParent\<close> asserts that the tracker has a parent before it moves the
  current pointer there, and both \<^verbatim>\<open>fail\<close> and the last step of \<^verbatim>\<open>close\<close> on a tracker
  that had not ended go through it.  So on a tracker \<open>t\<close> without parent, as the root
  that \<^verbatim>\<open>startRun\<close> creates is, \<^verbatim>\<open>fail\<close> trips the assertion; \<^verbatim>\<open>close\<close> trips it whenever it
  gets as far as that step, and returns normally from no tracker that had not ended.
  On a tracker with a parent \<open>p\<close> the step sets the current pointer to \<open>p\<close>; whenever
  \<^verbatim>\<open>fail\<close> returns, or \<^verbatim>\<open>close\<close> returns from a tracker that had not ended, the tracker had a
  parent and the current pointer is that parent.
\<close>

theorem no_parent_no_close_no_fail:
  assumes "deref c this = Some t" and "m_parent t = None"
  shows
    "moveToParent c this = Inl AssertionFailed \<and>
     fail c this = Inl AssertionFailed \<and>
     (drain fuel c this = Some (Inr c1) \<longrightarrow>
      (m_runState t = Executing \<or> m_runState t = NeedsAnotherRun \<or>
       m_runState t = ExecutingChildren \<and>
         (m_children t = [] \<or> deref c1 (last (m_children t)) \<noteq> None)) \<longrightarrow>
      close fuel c this = Some (Inl AssertionFailed)) \<and>
     (\<not> hasEnded t \<longrightarrow> (\<forall>c'. close fuel c this \<noteq> Some (Inr c'))) \<and>
     (\<forall>c'. fail c this \<noteq> Inr c') \<and>
     (\<forall>c0. \<exists>r. deref (fst (startRun c0)) (snd (startRun c0)) = Some r \<and> m_parent r = None) \<and>
     (\<forall>a u p. deref c a = Some u \<and> m_parent u = Some p \<longrightarrow>
        moveToParent c a = Inr (c\<lparr>m_currentPart := Some p\<rparr>)) \<and>
     (\<forall>a u c'. deref c a = Some u \<and> fail c a = Inr c' \<longrightarrow>
        m_parent u \<noteq> None \<and> m_currentPart c' = m_parent u) \<and>
     (\<forall>a u c'. deref c a = Some u \<and> \<not> hasEnded u \<and> close fuel c a = Some (Inr c') \<longrightarrow>
        m_parent u \<noteq> None \<and> m_currentPart c' = m_parent u)"
proof -
  have 1: "moveToParent c this = Inl AssertionFailed"
    using assms by (simp add: moveToParent_def)
  have 2: "fail c this = Inl AssertionFailed"
    using assms by (rule fail_no_parent)
  have 3: "drain fuel c this = Some (Inr c1) \<longrightarrow>
      (m_runState t = Executing \<or> m_runState t = NeedsAnotherRun \<or>
       m_runState t = ExecutingChildren \<and>
         (m_children t = [] \<or> deref c1 (last (m_children t)) \<noteq> None)) \<longrightarrow>
      close fuel c this = Some (Inl AssertionFailed)"
  proof (intro impI)
    assume d: "drain fuel c this = Some (Inr c1)"
      and s: "m_runState t = Executing \<or> m_runState t = NeedsAnotherRun \<or>
        m_runState t = ExecutingChildren \<and>
          (m_children t = [] \<or> deref c1 (last (m_children t)) \<noteq> None)"
    from drain_result [OF d] assms(1) have "deref c1 this = Some t" by simp
    from switch_no_parent [OF this assms(2) s] d assms(1)
    show "close fuel c this = Some (Inl AssertionFailed)"
      by (intro close_drained) simp_all
  qed
  have 4: "\<not> hasEnded t \<longrightarrow> (\<forall>c'. close fuel c this \<noteq> Some (Inr c'))"
    using close_not_ended [OF _ assms(1), of fuel] assms(2) by auto
  have 5: "\<forall>c'. fail c this \<noteq> Inr c'"
    using 2 by simp
  have 6: "\<forall>c0. \<exists>r. deref (fst (startRun c0)) (snd (startRun c0)) = Some r \<and> m_parent r = None"
    by (simp add: startRun_def alloc_def deref_def SectionTracker_new_def)
  have 7: "\<forall>a u p. deref c a = Some u \<and> m_parent u = Some p \<longrightarrow>
        moveToParent c a = Inr (c\<lparr>m_currentPart := Some p\<rparr>)"
    by (simp add: moveToParent_def setCurrentPart_def)
  have 8: "\<forall>a u c'. deref c a = Some u \<and> fail c a = Inr c' \<longrightarrow>
        m_parent u \<noteq> None \<and> m_currentPart c' = m_parent u"
    using fail_Inr by fastforce
  have 9: "\<forall>a u c'. deref c a = Some u \<and> \<not> hasEnded u \<and> close fuel c a = Some (Inr c') \<longrightarrow>
        m_parent u \<noteq> None \<and> m_currentPart c' = m_parent u"
    using close_not_ended by fastforce
  show ?thesis
    by (intro conjI; fact)
qed

theorem no_parent_no_close_no_fail_witness:
  "deref ctx_Testcase_closed 0 = Some (heap ctx_Testcase_closed ! 0) \<and>
   m_parent (heap ctx_Testcase_closed ! 0) = None \<and>
   drain 0 ctx_Testcase_closed 0 = Some (Inr ctx_Testcase_closed) \<and>
   m_runState (heap ctx_Testcase_closed ! 0) = ExecutingChildren \<and>
   deref ctx_Testcase_closed (last (m_children (heap ctx_Testcase_closed ! 0))) \<noteq> None \<and>
   \<not> hasEnded (heap ctx_Testcase_closed ! 0) \<and>
   fail ctx_Testcase_closed 0 = Inl AssertionFailed \<and>
   close 0 ctx_Testcase_closed 0 = Some (Inl AssertionFailed) \<and>
   deref ctx_Testcase_closed 1 = Some (heap ctx_Testcase_closed ! 1) \<and>
   m_parent (heap ctx_Testcase_closed ! 1) = Some 0 \<and>
   moveToParent ctx_Testcase_closed 1 = Inr (ctx_Testcase_closed\<lparr>m_currentPart := Some 0\<rparr>)"
proof -
  have t: "deref ctx_Testcase_closed 0 = Some (heap ctx_Testcase_closed ! 0)"
    and p: "m_parent (heap ctx_Testcase_closed ! 0) = None"
    and d: "drain 0 ctx_Testcase_closed 0 = Some (Inr ctx_Testcase_closed)"
    and s: "m_runState (heap ctx_Testcase_closed ! 0) = ExecutingChildren"
    and k: "deref ctx_Testcase_closed (last (m_children (heap ctx_Testcase_closed ! 0))) \<noteq> None"
    and e: "\<not> hasEnded (heap ctx_Testcase_closed ! 0)"
    and u: "deref ctx_Testcase_closed 1 = Some (heap ctx_Testcase_closed ! 1)"
    and q: "m_parent (heap ctx_Testcase_closed ! 1) = Some 0"
    by code_simp+
  note w = no_parent_no_close_no_fail [OF t p, of 0 ctx_Testcase_closed]
  from w have 1: "fail ctx_Testcase_closed 0 = Inl AssertionFailed"
    by blast
  from w d s k have 2: "close 0 ctx_Testcase_closed 0 = Some (Inl AssertionFailed)"
    by blast
  from w u q have 3:
    "moveToParent ctx_Testcase_closed 1 = Inr (ctx_Testcase_closed\<lparr>m_currentPart := Some 0\<rparr>)"
    by blast
  from t p d s k e 1 2 u q 3 show ?thesis
    by (intro conjI)
qed

end
